theory Spec2Isabelle
  imports Complex_Main "HOL-Library.Multiset" "HOL-Library.Product_Lexorder"
    "HOL-Library.List_Lexorder" "HOL-Library.Char_ord" "HOL-Library.AList"
begin

section \<open>Multi-sentence compression (panda): word graph, path search, keyphrase reranking\<close>

text \<open>
  The development follows \<^verbatim>\<open>panda.py\<close>. Python dictionaries are modelled as maps or
  association lists, and every exception the code can raise is a value of the type
  \<open>error\<close>. The floats of the word graph, where a division can raise and a weight can
  overflow, are values of the type \<open>pyfloat\<close> with an explicit rounding; the scores of
  TextRank are reals.
\<close>

subsection \<open>Errors and basic data\<close>

datatype error =
  IndexError | KeyError | ValueError | AttributeError | ZeroDivisionError | NetworkXError |
  TypeError | IOError

subsection \<open>Floating-point numbers\<close>

text \<open>
  A Python float is a finite number, an infinity or NaN. The machine rounds the exact
  result of an operation on finite numbers; this rounding is the parameter \<open>fl\<close> of
  every function of the word graph that computes with floats. An overflow gives an
  infinity, a division by zero raises, and a comparison with NaN is false. The sign of
  a zero is not modelled.
\<close>

datatype pyfloat = Fin real | PInf | NInf | NaN

type_synonym rounding = "real \<Rightarrow> pyfloat"

definition inf_of :: "bool \<Rightarrow> pyfloat" where
  "inf_of positive = (if positive then PInf else NInf)"

definition fadd :: "rounding \<Rightarrow> pyfloat \<Rightarrow> pyfloat \<Rightarrow> pyfloat" where
  "fadd fl a b =
     (case a of
        Fin x \<Rightarrow> (case b of Fin y \<Rightarrow> fl (x + y) | PInf \<Rightarrow> PInf | NInf \<Rightarrow> NInf | NaN \<Rightarrow> NaN)
      | PInf \<Rightarrow> (case b of Fin y \<Rightarrow> PInf | PInf \<Rightarrow> PInf | NInf \<Rightarrow> NaN | NaN \<Rightarrow> NaN)
      | NInf \<Rightarrow> (case b of Fin y \<Rightarrow> NInf | PInf \<Rightarrow> NaN | NInf \<Rightarrow> NInf | NaN \<Rightarrow> NaN)
      | NaN \<Rightarrow> NaN)"

definition fmul :: "rounding \<Rightarrow> pyfloat \<Rightarrow> pyfloat \<Rightarrow> pyfloat" where
  "fmul fl a b =
     (case a of
        Fin x \<Rightarrow>
          (case b of
             Fin y \<Rightarrow> fl (x * y)
           | PInf \<Rightarrow> (if x = 0 then NaN else inf_of (0 < x))
           | NInf \<Rightarrow> (if x = 0 then NaN else inf_of (x < 0))
           | NaN \<Rightarrow> NaN)
      | PInf \<Rightarrow>
          (case b of
             Fin y \<Rightarrow> (if y = 0 then NaN else inf_of (0 < y))
           | PInf \<Rightarrow> PInf
           | NInf \<Rightarrow> NInf
           | NaN \<Rightarrow> NaN)
      | NInf \<Rightarrow>
          (case b of
             Fin y \<Rightarrow> (if y = 0 then NaN else inf_of (y < 0))
           | PInf \<Rightarrow> NInf
           | NInf \<Rightarrow> PInf
           | NaN \<Rightarrow> NaN)
      | NaN \<Rightarrow> NaN)"

text \<open>
  \<^verbatim>\<open>a / b\<close>: a zero divisor raises, whatever \<open>a\<close> is; \<open>fquot\<close> is the quotient by
  another divisor.
\<close>

definition fquot :: "rounding \<Rightarrow> pyfloat \<Rightarrow> pyfloat \<Rightarrow> pyfloat" where
  "fquot fl a b =
     (case b of
        Fin y \<Rightarrow>
          (case a of
             Fin x \<Rightarrow> fl (x / y)
           | PInf \<Rightarrow> inf_of (0 < y)
           | NInf \<Rightarrow> inf_of (y < 0)
           | NaN \<Rightarrow> NaN)
      | NaN \<Rightarrow> NaN
      | _ \<Rightarrow> (case a of Fin x \<Rightarrow> Fin 0 | _ \<Rightarrow> NaN))"

definition fdiv :: "rounding \<Rightarrow> pyfloat \<Rightarrow> pyfloat \<Rightarrow> error + pyfloat" where
  "fdiv fl a b = (if b = Fin 0 then Inl ZeroDivisionError else Inr (fquot fl a b))"

definition flt :: "pyfloat \<Rightarrow> pyfloat \<Rightarrow> bool" where
  "flt a b \<longleftrightarrow>
     (case a of
        Fin x \<Rightarrow> (case b of Fin y \<Rightarrow> x < y | PInf \<Rightarrow> True | _ \<Rightarrow> False)
      | NInf \<Rightarrow> (case b of Fin y \<Rightarrow> True | PInf \<Rightarrow> True | _ \<Rightarrow> False)
      | _ \<Rightarrow> False)"

definition feq :: "pyfloat \<Rightarrow> pyfloat \<Rightarrow> bool" where
  "feq a b \<longleftrightarrow> a \<noteq> NaN \<and> a = b"

definition fle :: "pyfloat \<Rightarrow> pyfloat \<Rightarrow> bool" where
  "fle a b \<longleftrightarrow> flt a b \<or> feq a b"

text \<open>
  What the properties below need of the rounding: zero and the results of the rounding
  are not changed by it, it is monotone on the non-negative numbers, and one does not
  round to zero. The rounding to nearest of the double-precision numbers is of this kind.
\<close>

definition monotone_rounding :: "rounding \<Rightarrow> bool" where
  "monotone_rounding fl \<longleftrightarrow>
     fl 0 = Fin 0 \<and> flt (Fin 0) (fl 1) \<and>
     (\<forall>x y. fl x = Fin y \<longrightarrow> fl y = Fin y) \<and>
     (\<forall>x y. 0 \<le> x \<and> x \<le> y \<longrightarrow> fle (fl x) (fl y))"

text \<open>
  A rounding for the evaluation of examples: exact inside the range of the
  double-precision numbers, an infinity from \<open>2 ^ 1024\<close> on and zero up to \<open>2 ^ - 1075\<close>.
  There, and on every number that is a double, it is the rounding of the machine.
\<close>

definition double_range :: rounding where
  "double_range x =
     (if 2 ^ 1024 \<le> \<bar>x\<bar> then inf_of (0 < x)
      else if \<bar>x\<bar> * 2 ^ 1075 \<le> 1 then Fin 0
      else Fin x)"

text \<open>An occurrence is a pair (sentence index, position in the sentence).\<close>

type_synonym occ = "nat \<times> nat"

text \<open>A node of the word graph is a pair (\<open>word/-/POS\<close>, identifier).\<close>

type_synonym nkey = "string \<times> nat"

record node_attr =
  info :: "occ list"
  label :: string

text \<open>
  The directed graph of the library: the node dictionary with its attributes, and the
  edges with their optional \<open>weight\<close> attribute, both in insertion order.
\<close>

record digraph =
  g_nodes :: "(nkey \<times> node_attr) list"
  g_edges :: "((nkey \<times> nkey) \<times> pyfloat option) list"

definition node_info_of :: "digraph \<Rightarrow> nkey \<Rightarrow> error + occ list" where
  "node_info_of g n =
     (case map_of (g_nodes g) n of None \<Rightarrow> Inl KeyError | Some a \<Rightarrow> Inr (info a))"

subsection \<open>The co-occurrence graph and TextRank\<close>

text \<open>A node of the co-occurrence graph is a pair (lowercased word, POS).\<close>

type_synonym wnode = "string \<times> string"

text \<open>
  The undirected graph of the library: the nodes, and the undirected edges with their
  \<open>weight\<close> attribute (a co-occurrence count). An undirected edge is stored once and
  is seen from both of its ends.
\<close>

record ugraph =
  u_nodes :: "wnode list"
  u_edges :: "((wnode \<times> wnode) \<times> nat) list"

text \<open>The neighbours of a node, each with the weight of the connecting edge.\<close>

definition u_adj :: "ugraph \<Rightarrow> wnode \<Rightarrow> (wnode \<times> nat) list" where
  "u_adj g u = concat (map (\<lambda>((a, b), w).
      if a = u then [(b, w)] else if b = u then [(a, w)] else []) (u_edges g))"

text \<open>The loop over the nodes J connected to I, accumulating \<open>sum_Vj\<close>.\<close>

fun sum_Vj_loop ::
  "ugraph \<Rightarrow> (wnode \<rightharpoonup> real) \<Rightarrow> (wnode \<times> nat) list \<Rightarrow> real \<Rightarrow> error + real" where
  "sum_Vj_loop g current_node_scores [] sum_Vj = Inr sum_Vj"
| "sum_Vj_loop g current_node_scores ((node_j, wji) # rest) sum_Vj =
     (case current_node_scores node_j of
        None \<Rightarrow> Inl KeyError
      | Some WSVj \<Rightarrow>
          (let sum_wjk = sum_list (map (\<lambda>(node_k, w). real w) (u_adj g node_j))
           in if sum_wjk = 0 then Inl ZeroDivisionError
              else sum_Vj_loop g current_node_scores rest (sum_Vj + (real wji * WSVj) / sum_wjk)))"

text \<open>
  One sweep: the loop over the nodes I of the graph. The state is the score table being
  written and \<open>max_node_difference\<close>; the scores read are those of the copy made before
  the sweep.
\<close>

fun sweep ::
  "ugraph \<Rightarrow> real \<Rightarrow> (wnode \<rightharpoonup> real) \<Rightarrow> wnode list \<Rightarrow> (wnode \<rightharpoonup> real) \<times> real \<Rightarrow>
   error + ((wnode \<rightharpoonup> real) \<times> real)" where
  "sweep g d current_node_scores [] (word_scores, max_node_difference) =
     Inr (word_scores, max_node_difference)"
| "sweep g d current_node_scores (node_i # rest) (word_scores, max_node_difference) =
     (case sum_Vj_loop g current_node_scores (u_adj g node_i) 0 of
        Inl e \<Rightarrow> Inl e
      | Inr sum_Vj \<Rightarrow>
          (case current_node_scores node_i of
             None \<Rightarrow> Inl KeyError
           | Some old \<Rightarrow>
               (let new = (1 - d) + (d * sum_Vj);
                    score_difference = \<bar>new - old\<bar>
                in sweep g d current_node_scores rest
                     (word_scores(node_i \<mapsto> new), max score_difference score_difference))))"

text \<open>
  The \<open>while\<close> loop of \<open>undirected_TextRank\<close>. It may run forever: not returning is the
  value \<open>None\<close>.
\<close>

partial_function (option) textrank_loop ::
  "ugraph \<Rightarrow> real \<Rightarrow> real \<Rightarrow> (wnode \<rightharpoonup> real) \<times> real \<Rightarrow> (error + (wnode \<rightharpoonup> real)) option" where
  "textrank_loop g d f_conv st =
     (if snd st \<ge> f_conv
      then (case sweep g d (fst st) (u_nodes g) st of
              Inl e \<Rightarrow> Some (Inl e)
            | Inr st' \<Rightarrow> textrank_loop g d f_conv st')
      else Some (Inr (fst st)))"

definition init_scores :: "wnode list \<Rightarrow> (wnode \<rightharpoonup> real)" where
  "init_scores ns = fold (\<lambda>node word_scores. word_scores(node \<mapsto> 1)) ns Map.empty"

definition undirected_TextRank ::
  "ugraph \<Rightarrow> real \<Rightarrow> real \<Rightarrow> (error + (wnode \<rightharpoonup> real)) option" where
  "undirected_TextRank g d f_conv = textrank_loop g d f_conv (init_scores (u_nodes g), f_conv)"



definition empty_ugraph :: ugraph where
  "empty_ugraph = \<lparr> u_nodes = [], u_edges = [] \<rparr>"

subsection \<open>Clustering of keyphrase candidates\<close>

text \<open>\<^verbatim>\<open>s.split(' ')\<close>: the pieces between single spaces, empty pieces included.\<close>

fun split_space :: "string \<Rightarrow> string list" where
  "split_space [] = [[]]"
| "split_space (c # cs) =
     (if c = CHR '' '' then [] # split_space cs
      else (case split_space cs of [] \<Rightarrow> [[c]] | w # ws \<Rightarrow> (c # w) # ws))"

text \<open>
  The test of the inner loop: the words of the keyphrase that are not words of the
  cluster representative are none.
\<close>

definition covered_by :: "string \<Rightarrow> string \<Rightarrow> bool" where
  "covered_by keyphrase cluster \<longleftrightarrow>
     card (set (split_space keyphrase) - set (split_space cluster)) = 0"

text \<open>
  The loop over the existing clusters. The dictionary of clusters is an association list
  from the representative to the members; the loop has no \<open>break\<close>.
\<close>

fun add_to_clusters ::
  "string \<Rightarrow> (string \<times> string list) list \<Rightarrow> bool \<Rightarrow> (string \<times> string list) list \<times> bool" where
  "add_to_clusters keyphrase [] found_cluster = ([], found_cluster)"
| "add_to_clusters keyphrase ((cluster, members) # rest) found_cluster =
     (if covered_by keyphrase cluster
      then (case add_to_clusters keyphrase rest True of
              (rest', found') \<Rightarrow> ((cluster, members @ [keyphrase]) # rest', found'))
      else (case add_to_clusters keyphrase rest found_cluster of
              (rest', found') \<Rightarrow> ((cluster, members) # rest', found')))"

definition cluster_step ::
  "(string \<times> string list) list \<Rightarrow> string \<Rightarrow> (string \<times> string list) list" where
  "cluster_step clusters keyphrase =
     (case add_to_clusters keyphrase clusters False of
        (clusters', found_cluster) \<Rightarrow>
          if \<not> found_cluster then clusters' @ [(keyphrase, [keyphrase])] else clusters')"

text \<open>
  The candidates sorted by decreasing number of words (a stable sort, as \<open>sorted\<close> with
  \<open>reverse=True\<close> is), and the clusters built from them.
\<close>

definition processing_order :: "(string \<times> wnode list) list \<Rightarrow> (string \<times> wnode list) list" where
  "processing_order keyphrase_candidates =
     sort_key (\<lambda>(keyphrase, candidate). - int (length candidate)) keyphrase_candidates"

definition descending_keys :: "(string \<times> wnode list) list \<Rightarrow> string list" where
  "descending_keys keyphrase_candidates = map fst (processing_order keyphrase_candidates)"

definition build_clusters :: "(string \<times> wnode list) list \<Rightarrow> (string \<times> string list) list" where
  "build_clusters keyphrase_candidates =
     foldl cluster_step [] (descending_keys keyphrase_candidates)"

definition placed :: "string \<Rightarrow> (string \<times> string list) list \<Rightarrow> bool" where
  "placed keyphrase clusters \<longleftrightarrow> (\<exists>(cluster, members) \<in> set clusters. keyphrase \<in> set members)"

text \<open>Three candidates, the shortest one covered by both of the others.\<close>

definition abc_candidates :: "(string \<times> wnode list) list" where
  "abc_candidates =
     [(''a b'', [(''a'', ''NN''), (''b'', ''NN'')]),
      (''a b c'', [(''a'', ''NN''), (''b'', ''NN''), (''c'', ''NN'')]),
      (''a b d'', [(''a'', ''NN''), (''b'', ''NN''), (''d'', ''NN'')])]"

subsection \<open>Python primitives\<close>

text \<open>Sequencing of computations that may raise.\<close>

definition bindE :: "error + 'a \<Rightarrow> ('a \<Rightarrow> error + 'b) \<Rightarrow> error + 'b" where
  "bindE m f = (case m of Inl e \<Rightarrow> Inl e | Inr x \<Rightarrow> f x)"

lemma bindE_cong [fundef_cong]:
  "m = m' \<Longrightarrow> (\<And>x. m' = Inr x \<Longrightarrow> f x = f' x) \<Longrightarrow> bindE m f = bindE m' f'"
  by (auto simp: bindE_def split: sum.splits)

text \<open>A \<open>for\<close> loop over a list whose body may raise.\<close>

fun foldE :: "('a \<Rightarrow> 's \<Rightarrow> error + 's) \<Rightarrow> 'a list \<Rightarrow> 's \<Rightarrow> error + 's" where
  "foldE f [] s = Inr s"
| "foldE f (x # xs) s = bindE (f x s) (foldE f xs)"

text \<open>\<^verbatim>\<open>xs[i]\<close>: a negative index counts from the end, an index out of range raises.\<close>

definition py_nth :: "'a list \<Rightarrow> int \<Rightarrow> error + 'a" where
  "py_nth xs i =
     (if 0 \<le> i \<and> i < int (length xs) then Inr (xs ! nat i)
      else if i < 0 \<and> 0 \<le> int (length xs) + i then Inr (xs ! nat (int (length xs) + i))
      else Inl IndexError)"

text \<open>\<^verbatim>\<open>del xs[i]\<close> for a non-negative index.\<close>

definition del_at :: "'a list \<Rightarrow> nat \<Rightarrow> error + 'a list" where
  "del_at xs i = (if i < length xs then Inr (take i xs @ drop (Suc i) xs) else Inl IndexError)"

text \<open>\<^verbatim>\<open>s.lower()\<close> on a byte string: the ASCII capitals are mapped to small letters.\<close>

definition lower_char :: "char \<Rightarrow> char" where
  "lower_char c = (if CHR ''A'' \<le> c \<and> c \<le> CHR ''Z'' then char_of (of_char c + (32::nat)) else c)"

definition lower :: "string \<Rightarrow> string" where
  "lower s = map lower_char s"

text \<open>
  The test \<^verbatim>\<open>re.search('(?u)^\W$', w)\<close>, on ASCII text: the string is one character that
  is not a letter, a digit or the underscore (\<open>$\<close> also matches before a final newline).
\<close>

definition word_char :: "char \<Rightarrow> bool" where
  "word_char c \<longleftrightarrow>
     (CHR ''a'' \<le> c \<and> c \<le> CHR ''z'') \<or> (CHR ''A'' \<le> c \<and> c \<le> CHR ''Z'') \<or>
     (CHR ''0'' \<le> c \<and> c \<le> CHR ''9'') \<or> c = CHR ''_''"

definition is_punct :: "string \<Rightarrow> bool" where
  "is_punct w =
     (case w of
        [c] \<Rightarrow> \<not> word_char c
      | [c, n] \<Rightarrow> \<not> word_char c \<and> n = CHR 0x0A
      | _ \<Rightarrow> False)"

lemma double_range_code [code]:
  "double_range x =
     (if x = 0 then Fin 0
      else if 1 \<le> \<bar>x\<bar> * 1024 \<and> \<bar>x\<bar> \<le> 1024 then Fin x
      else if 2 ^ 1024 \<le> \<bar>x\<bar> then inf_of (0 < x)
      else if \<bar>x\<bar> * 2 ^ 1075 \<le> 1 then Fin 0
      else Fin x)"
proof -
  have "(2::real) ^ 10 \<le> 2 ^ 1024" by (rule power_increasing) simp_all
  then have big: "(1024::real) < 2 ^ 1024" by simp
  have "(2::real) ^ 10 \<le> 2 ^ 1075" by (rule power_increasing) simp_all
  then have small: "(1024::real) < 2 ^ 1075" by simp
  show ?thesis
  proof (cases "1 \<le> \<bar>x\<bar> * 1024 \<and> \<bar>x\<bar> \<le> 1024")
    case True
    then have "\<bar>x\<bar> < 2 ^ 1024" using big by simp
    moreover have "1 < \<bar>x\<bar> * 2 ^ 1075"
    proof -
      have "0 < \<bar>x\<bar>" using True by (cases "x = 0") simp_all
      then have "\<bar>x\<bar> * 1024 < \<bar>x\<bar> * 2 ^ 1075" using small by simp
      with True show ?thesis by simp
    qed
    ultimately show ?thesis using True by (simp add: double_range_def)
  next
    case False
    then show ?thesis by (simp add: double_range_def)
  qed
qed

subsection \<open>Edge weights\<close>

text \<open>The weight of a word; a word that has none counts \<open>0.0\<close>.\<close>

definition term_weight_of :: "(string \<rightharpoonup> pyfloat) \<Rightarrow> string \<Rightarrow> pyfloat" where
  "term_weight_of tw key = (case tw key of Some w \<Rightarrow> w | None \<Rightarrow> Fin 0)"

definition positions_in :: "occ list \<Rightarrow> nat \<Rightarrow> nat list" where
  "positions_in occs s = map snd (filter (\<lambda>(sentence_id, pos_in_sentence). sentence_id = s) occs)"

text \<open>The distances \<^verbatim>\<open>-1.0 * diff_i_j\<close>; the product of a position difference by \<open>-1.0\<close> is exact.\<close>

definition all_diff_pos :: "nat list \<Rightarrow> nat list \<Rightarrow> real list" where
  "all_diff_pos pos_i_in_s pos_j_in_s =
     concat (map (\<lambda>x. concat (map (\<lambda>y.
        if int x - int y < 0 then [- 1 * real_of_int (int x - int y)] else []) pos_j_in_s))
      pos_i_in_s)"

definition sentence_diff :: "rounding \<Rightarrow> occ list \<Rightarrow> occ list \<Rightarrow> nat \<Rightarrow> error + pyfloat" where
  "sentence_diff fl info1 info2 s =
     (let all_diff_pos_i_j = all_diff_pos (positions_in info1 s) (positions_in info2 s)
      in if length all_diff_pos_i_j > 0 then fdiv fl (Fin 1) (Fin (min_list all_diff_pos_i_j))
         else Inr (Fin 0))"

definition diff_list :: "rounding \<Rightarrow> occ list \<Rightarrow> occ list \<Rightarrow> nat \<Rightarrow> error + pyfloat list" where
  "diff_list fl info1 info2 len =
     foldE (\<lambda>s diff. bindE (sentence_diff fl info1 info2 s) (\<lambda>d. Inr (diff @ [d]))) [0..<len] []"

text \<open>\<^verbatim>\<open>sum(diff)\<close>: the additions from the left, starting at \<open>0\<close>.\<close>

definition fsum :: "rounding \<Rightarrow> pyfloat list \<Rightarrow> pyfloat" where
  "fsum fl diff = foldl (fadd fl) (Fin 0) diff"

text \<open>
  \<open>get_edge_weight\<close>: the only test before the two divisions is the one on the two word
  weights.
\<close>

definition get_edge_weight ::
  "rounding \<Rightarrow> digraph \<Rightarrow> (string \<rightharpoonup> pyfloat) \<Rightarrow> nat \<Rightarrow> nkey \<Rightarrow> nkey \<Rightarrow> error + pyfloat" where
  "get_edge_weight fl g tw len node1 node2 =
     bindE (node_info_of g node1) (\<lambda>info1.
     bindE (node_info_of g node2) (\<lambda>info2.
       (let weight1 = term_weight_of tw (fst node1);
            weight2 = term_weight_of tw (fst node2)
        in if feq weight1 (Fin 0) \<or> feq weight2 (Fin 0) then Inr (Fin 0)
           else
             bindE (diff_list fl info1 info2 len) (\<lambda>diff.
             bindE (fdiv fl (fadd fl weight1 weight2) (fsum fl diff)) (\<lambda>quotient.
               fdiv fl quotient (fmul fl weight1 weight2))))))"

text \<open>
  Two nodes one position apart, with weights whose product is below the smallest
  positive double; and the same two nodes in the other order.
\<close>

definition ew_graph :: digraph where
  "ew_graph = \<lparr> g_nodes = [((''b/-/NN'', 0), \<lparr> info = [(0, 1)], label = ''b'' \<rparr>),
                          ((''a/-/NN'', 0), \<lparr> info = [(0, 2)], label = ''a'' \<rparr>)],
               g_edges = [] \<rparr>"

definition ew_weights :: "string \<rightharpoonup> pyfloat" where
  "ew_weights = [''a/-/NN'' \<mapsto> Fin 1, ''b/-/NN'' \<mapsto> Fin 3]"

subsection \<open>The index of the maximum\<close>

text \<open>
  \<open>max_index\<close> returns the first index that holds the maximum: the loop replaces the
  maximum only by a strictly greater value. On the empty list \<^verbatim>\<open>l[0]\<close> raises.
\<close>

fun max_index_loop :: "nat list \<Rightarrow> nat \<Rightarrow> nat \<Rightarrow> nat \<Rightarrow> nat" where
  "max_index_loop [] z max_val max_ind = max_ind"
| "max_index_loop (x # xs) z max_val max_ind =
     (if x > max_val then max_index_loop xs (Suc z) x z
      else max_index_loop xs (Suc z) max_val max_ind)"

definition max_index :: "nat list \<Rightarrow> error + nat" where
  "max_index l =
     (case l of
        [] \<Rightarrow> Inl IndexError
      | [x] \<Rightarrow> Inr 0
      | x # xs \<Rightarrow> Inr (max_index_loop xs 1 x 0))"

subsection \<open>The word graph\<close>

text \<open>A token of a preprocessed sentence: (word, POS, weight), the weight still a string.\<close>

type_synonym token = "string \<times> string \<times> string"

definition start :: string where "start = ''-start-''"
definition stop :: string where "stop = ''-end-''"
definition sep :: string where "sep = ''/-/''"

record word_graph =
  sentence :: "token list list"
  nb_words :: int
  stopwords :: "string set"
  graph :: digraph
  term_freq :: "string \<rightharpoonup> nat"
  term_weight :: "string \<rightharpoonup> pyfloat"
  verbs :: "string set"

text \<open>The node identifier \<open>word/-/pos\<close> of a token.\<close>

definition node_of :: "token \<Rightarrow> string" where
  "node_of t = (case t of (token, pos, weight) \<Rightarrow> lower token @ sep @ pos)"

subsubsection \<open>Operations of the graph library\<close>

definition has_node :: "digraph \<Rightarrow> nkey \<Rightarrow> bool" where
  "has_node g n \<longleftrightarrow> map_of (g_nodes g) n \<noteq> None"

text \<open>\<open>add_node\<close> creates the node, or replaces the attributes of an existing one.\<close>

definition add_node :: "digraph \<Rightarrow> nkey \<Rightarrow> node_attr \<Rightarrow> digraph" where
  "add_node g n a = g\<lparr>g_nodes := AList.update n a (g_nodes g)\<rparr>"

text \<open>\<^verbatim>\<open>self.graph.node[n]['info'].append(oc)\<close>.\<close>

definition append_info :: "digraph \<Rightarrow> nkey \<Rightarrow> occ \<Rightarrow> error + digraph" where
  "append_info g n oc =
     (case map_of (g_nodes g) n of
        None \<Rightarrow> Inl KeyError
      | Some a \<Rightarrow> Inr (g\<lparr>g_nodes := AList.update n (a\<lparr>info := info a @ [oc]\<rparr>) (g_nodes g)\<rparr>))"

text \<open>
  \<open>add_edge\<close> without attributes keeps an existing edge as it is; with a weight it sets
  the weight. It is only called on nodes that are in the graph.
\<close>

definition add_edge :: "digraph \<Rightarrow> nkey \<Rightarrow> nkey \<Rightarrow> digraph" where
  "add_edge g u v =
     (if map_of (g_edges g) (u, v) = None then g\<lparr>g_edges := g_edges g @ [((u, v), None)]\<rparr> else g)"

definition set_edge_weight :: "digraph \<Rightarrow> nkey \<Rightarrow> nkey \<Rightarrow> pyfloat \<Rightarrow> digraph" where
  "set_edge_weight g u v w = g\<lparr>g_edges := AList.update (u, v) (Some w) (g_edges g)\<rparr>"

text \<open>\<open>neighbors\<close>: the successors of a node; the library raises when the node is unknown.\<close>

definition neighbors :: "digraph \<Rightarrow> nkey \<Rightarrow> error + nkey list" where
  "neighbors g u =
     (if has_node g u then Inr (map (snd \<circ> fst) (filter (\<lambda>((a, b), w). a = u) (g_edges g)))
      else Inl NetworkXError)"

text \<open>\<^verbatim>\<open>self.graph[u][v]['weight']\<close>.\<close>

definition edge_weight :: "digraph \<Rightarrow> nkey \<Rightarrow> nkey \<Rightarrow> error + pyfloat" where
  "edge_weight g u v =
     (case map_of (g_edges g) (u, v) of
        None \<Rightarrow> Inl KeyError
      | Some None \<Rightarrow> Inl KeyError
      | Some (Some w) \<Rightarrow> Inr w)"

subsubsection \<open>Candidate nodes and their context\<close>

text \<open>The number of nodes \<open>(node, 0), (node, 1), ...\<close> that are in the graph.\<close>

lemma filter_length_shrinks:
  "x \<in> set xs \<Longrightarrow> P x \<Longrightarrow> \<not> Q x \<Longrightarrow> (\<And>y. Q y \<Longrightarrow> P y) \<Longrightarrow>
   length (filter Q xs) < length (filter P xs)"
proof (induction xs)
  case Nil
  then show ?case by simp
next
  case (Cons a xs)
  have le: "length (filter Q xs) \<le> length (filter P xs)"
    using Cons.prems(4) by (induction xs) auto
  show ?case
  proof (cases "x = a")
    case True
    with Cons.prems le show ?thesis by simp
  next
    case False
    with Cons have "length (filter Q xs) < length (filter P xs)" by simp
    with Cons.prems(4) show ?thesis by auto
  qed
qed

function ambiguous_from :: "digraph \<Rightarrow> string \<Rightarrow> nat \<Rightarrow> nat" where
  "ambiguous_from g node k = (if has_node g (node, k) then ambiguous_from g node (Suc k) else k)"
  by pat_completeness auto
termination
proof (relation "measure (\<lambda>(g, node, k).
    length (filter (\<lambda>n. fst n = node \<and> k \<le> snd n) (map fst (g_nodes g))))")
  fix g :: digraph and node :: string and k :: nat
  assume "has_node g (node, k)"
  then have "(node, k) \<in> set (map fst (g_nodes g))"
    by (auto simp: has_node_def map_of_eq_None_iff)
  then have "length (filter (\<lambda>n. fst n = node \<and> Suc k \<le> snd n) (map fst (g_nodes g)))
      < length (filter (\<lambda>n. fst n = node \<and> k \<le> snd n) (map fst (g_nodes g)))"
    by (rule filter_length_shrinks) auto
  then show "((g, node, Suc k), (g, node, k)) \<in> measure (\<lambda>(g, node, k).
      length (filter (\<lambda>n. fst n = node \<and> k \<le> snd n) (map fst (g_nodes g))))"
    by simp
qed simp

definition ambiguous_nodes :: "word_graph \<Rightarrow> string \<Rightarrow> nat" where
  "ambiguous_nodes self node = ambiguous_from (graph self) node 0"

datatype direction = Left | Right | All

fun context_loop ::
  "word_graph \<Rightarrow> bool \<Rightarrow> occ list \<Rightarrow> string list \<times> string list \<Rightarrow> error + (string list \<times> string list)" where
  "context_loop self non_pos [] (l_context, r_context) = Inr (l_context, r_context)"
| "context_loop self non_pos ((sid, off) # rest) (l_context, r_context) =
     bindE (py_nth (sentence self) (int sid)) (\<lambda>s.
     bindE (py_nth s (int off - 1)) (\<lambda>p.
     bindE (py_nth s (int off + 1)) (\<lambda>n.
       if non_pos
       then context_loop self non_pos rest
              (if fst p \<notin> stopwords self then l_context @ [node_of p] else l_context,
               if fst n \<notin> stopwords self then r_context @ [node_of n] else r_context)
       else context_loop self non_pos rest (l_context @ [node_of p], r_context @ [node_of n]))))"

definition get_directed_context ::
  "word_graph \<Rightarrow> string \<Rightarrow> nat \<Rightarrow> direction \<Rightarrow> bool \<Rightarrow> error + string list" where
  "get_directed_context self node k dir non_pos =
     bindE (node_info_of (graph self) (node, k)) (\<lambda>occs.
     bindE (context_loop self non_pos occs ([], [])) (\<lambda>(l_context, r_context).
       case dir of
         Left \<Rightarrow> Inr l_context
       | Right \<Rightarrow> Inr r_context
       | All \<Rightarrow> Inr (l_context @ r_context)))"

subsubsection \<open>Building the graph\<close>

text \<open>
  The list \<open>mapping\<close> of a sentence: the node chosen for each position, \<open>None\<close> where the
  code still holds its initial \<open>0\<close>.
\<close>

type_synonym mapping = "nkey option list"

definition new_node :: "word_graph \<Rightarrow> nkey \<Rightarrow> nat \<Rightarrow> nat \<Rightarrow> string \<Rightarrow> word_graph" where
  "new_node self n i j token =
     self\<lparr>graph := add_node (graph self) n \<lparr>info = [(i, j)], label = lower token\<rparr>\<rparr>"

definition attach :: "word_graph \<Rightarrow> nkey \<Rightarrow> nat \<Rightarrow> nat \<Rightarrow> error + word_graph" where
  "attach self n i j = bindE (append_info (graph self) n (i, j)) (\<lambda>g. Inr (self\<lparr>graph := g\<rparr>))"

text \<open>The identifiers of the words before and after position \<open>j\<close> of sentence \<open>i\<close>.\<close>

definition neighbour_nodes :: "word_graph \<Rightarrow> nat \<Rightarrow> nat \<Rightarrow> error + (string \<times> string)" where
  "neighbour_nodes self i j =
     bindE (py_nth (sentence self ! i) (int j - 1)) (\<lambda>p.
     bindE (py_nth (sentence self ! i) (int j + 1)) (\<lambda>n.
       Inr (node_of p, node_of n)))"

text \<open>The context overlap of the candidate \<open>(node, l)\<close>.\<close>

definition candidate_overlap ::
  "word_graph \<Rightarrow> string \<Rightarrow> bool \<Rightarrow> string \<Rightarrow> string \<Rightarrow> nat \<Rightarrow> error + nat" where
  "candidate_overlap self node non_pos prev_node next_node l =
     bindE (get_directed_context self node l Left non_pos) (\<lambda>l_context.
     bindE (get_directed_context self node l Right non_pos) (\<lambda>r_context.
       Inr (count_list l_context prev_node + count_list r_context next_node)))"

text \<open>
  The end of passes 2 to 4: the occurrence is added to the selected node, or a new node
  with the next free identifier \<open>k\<close> is created; \<open>mapping\<close> records the node.
\<close>

definition attach_or_create ::
  "word_graph \<Rightarrow> mapping \<Rightarrow> nat \<Rightarrow> nat \<Rightarrow> string \<Rightarrow> string \<Rightarrow> bool \<Rightarrow> nat \<Rightarrow> nat \<Rightarrow>
   error + (word_graph \<times> mapping)" where
  "attach_or_create self mapping i j token node found selected k =
     (if found then
        bindE (attach self (node, selected) i j) (\<lambda>self'.
          Inr (self', mapping[j := Some (node, selected)]))
      else Inr (new_node self (node, k) i j token, mapping[j := Some (node, k)]))"

text \<open>Pass 1: a word without a candidate node, or with exactly one.\<close>

definition pass1_step :: "nat \<Rightarrow> nat \<Rightarrow> word_graph \<times> mapping \<Rightarrow> error + (word_graph \<times> mapping)" where
  "pass1_step i j st =
     (case st of (self, mapping) \<Rightarrow>
      (case sentence self ! i ! j of (token, pos, weight) \<Rightarrow>
        if token \<in> stopwords self \<or> is_punct token then Inr (self, mapping)
        else
          (let node = lower token @ sep @ pos;
               k = ambiguous_nodes self node
           in if k = 0 then
                Inr (new_node self (node, 0) i j token, mapping[j := Some (node, 0)])
              else if k = 1 then
                bindE (node_info_of (graph self) (node, 0)) (\<lambda>occs.
                  if i \<notin> set (map fst occs) then
                    bindE (attach self (node, 0) i j) (\<lambda>self'.
                      Inr (self', mapping[j := Some (node, 0)]))
                  else
                    Inr (new_node self (node, 1) i j token, mapping[j := Some (node, 1)]))
              else Inr (self, mapping))))"

text \<open>
  Pass 2: the overlap and the frequency of every candidate, then the loop that looks for
  a candidate without an occurrence in the current sentence. The loop deletes the
  rejected entry from both lists and goes on with the shortened lists.
\<close>

definition pass2_scores ::
  "word_graph \<Rightarrow> string \<Rightarrow> string \<Rightarrow> string \<Rightarrow> nat \<Rightarrow> error + (nat list \<times> nat list)" where
  "pass2_scores self node prev_node next_node k =
     foldE (\<lambda>l (ambinode_overlap, ambinode_frequency).
              bindE (candidate_overlap self node False prev_node next_node l) (\<lambda>val.
              bindE (node_info_of (graph self) (node, l)) (\<lambda>occs.
                Inr (ambinode_overlap @ [val], ambinode_frequency @ [length occs]))))
       [0..<k] ([], [])"

function select_candidate ::
  "digraph \<Rightarrow> string \<Rightarrow> nat \<Rightarrow> nat list \<Rightarrow> nat list \<Rightarrow> error + (bool \<times> nat)" where
  "select_candidate g node i ambinode_overlap ambinode_frequency =
     bindE (max_index ambinode_overlap) (\<lambda>best.
     bindE (if ambinode_overlap ! best = 0 then max_index ambinode_frequency else Inr best)
       (\<lambda>selected.
     bindE (node_info_of g (node, selected)) (\<lambda>occs.
       if i \<notin> set (map fst occs) then Inr (True, selected)
       else
         bindE (del_at ambinode_overlap selected) (\<lambda>ov.
         bindE (del_at ambinode_frequency selected) (\<lambda>fr.
           if length ov = 0 then Inr (False, selected)
           else select_candidate g node i ov fr)))))"
  by pat_completeness auto
termination
  by (relation "measure (\<lambda>(g, node, i, ov, fr). length ov)")
     (auto simp: del_at_def split: if_splits)

definition pass2_select :: "word_graph \<Rightarrow> nat \<Rightarrow> nat \<Rightarrow> string \<Rightarrow> error + (bool \<times> nat)" where
  "pass2_select self i j node =
     bindE (neighbour_nodes self i j) (\<lambda>nb.
     bindE (pass2_scores self node (fst nb) (snd nb) (ambiguous_nodes self node)) (\<lambda>scores.
       select_candidate (graph self) node i (fst scores) (snd scores)))"

definition pass2_step :: "nat \<Rightarrow> nat \<Rightarrow> word_graph \<times> mapping \<Rightarrow> error + (word_graph \<times> mapping)" where
  "pass2_step i j st =
     (case st of (self, mapping) \<Rightarrow>
      (case sentence self ! i ! j of (token, pos, weight) \<Rightarrow>
        if token \<in> stopwords self \<or> is_punct token then Inr (self, mapping)
        else if mapping ! j = None then
          (let node = lower token @ sep @ pos
           in bindE (pass2_select self i j node) (\<lambda>r.
                attach_or_create self mapping i j token node (fst r) (snd r)
                  (ambiguous_nodes self node)))
        else Inr (self, mapping)))"

text \<open>
  Passes 3 and 4 (stopwords, punctuation marks): the best candidate by overlap is reused
  when it has no occurrence in the current sentence and its overlap exceeds the
  threshold; otherwise a new node is created.
\<close>

definition ambinode_overlaps ::
  "word_graph \<Rightarrow> string \<Rightarrow> bool \<Rightarrow> string \<Rightarrow> string \<Rightarrow> nat \<Rightarrow> error + nat list" where
  "ambinode_overlaps self node non_pos prev_node next_node k =
     foldE (\<lambda>l ambinode_overlap.
              bindE (candidate_overlap self node non_pos prev_node next_node l) (\<lambda>val.
                Inr (ambinode_overlap @ [val])))
       [0..<k] []"

definition best_overlap ::
  "word_graph \<Rightarrow> bool \<Rightarrow> nat \<Rightarrow> nat \<Rightarrow> string \<Rightarrow> nat \<Rightarrow> error + (nat \<times> nat)" where
  "best_overlap self non_pos i j node k =
     bindE (neighbour_nodes self i j) (\<lambda>nb.
     bindE (ambinode_overlaps self node non_pos (fst nb) (snd nb) k) (\<lambda>ambinode_overlap.
     bindE (max_index ambinode_overlap) (\<lambda>selected.
       Inr (selected, ambinode_overlap ! selected))))"

definition reuse_or_create ::
  "bool \<Rightarrow> nat \<Rightarrow> nat \<Rightarrow> nat \<Rightarrow> token \<Rightarrow> word_graph \<times> mapping \<Rightarrow> error + (word_graph \<times> mapping)" where
  "reuse_or_create non_pos threshold i j t st =
     (case st of (self, mapping) \<Rightarrow>
      (case t of (token, pos, weight) \<Rightarrow>
        (let node = lower token @ sep @ pos;
             k = ambiguous_nodes self node
         in if k = 0 then
              Inr (new_node self (node, 0) i j token, mapping[j := Some (node, 0)])
            else
              bindE (best_overlap self non_pos i j node k) (\<lambda>best.
              bindE (node_info_of (graph self) (node, fst best)) (\<lambda>occs.
                attach_or_create self mapping i j token node
                  (i \<notin> set (map fst occs) \<and> snd best > threshold) (fst best) k)))))"

definition pass3_step :: "nat \<Rightarrow> nat \<Rightarrow> word_graph \<times> mapping \<Rightarrow> error + (word_graph \<times> mapping)" where
  "pass3_step i j st =
     (case sentence (fst st) ! i ! j of (token, pos, weight) \<Rightarrow>
        if token \<notin> stopwords (fst st) then Inr st
        else reuse_or_create True 0 i j (token, pos, weight) st)"

definition pass4_step :: "nat \<Rightarrow> nat \<Rightarrow> word_graph \<times> mapping \<Rightarrow> error + (word_graph \<times> mapping)" where
  "pass4_step i j st =
     (case sentence (fst st) ! i ! j of (token, pos, weight) \<Rightarrow>
        if \<not> is_punct token then Inr st
        else reuse_or_create False 1 i j (token, pos, weight) st)"

text \<open>
  The edges between consecutive positions. Every position has a node after the four
  passes; an entry still holding the initial \<open>0\<close> would make the weight computation
  raise \<open>KeyError\<close>, which is what the model returns for it.
\<close>

definition add_edges_step :: "nat \<Rightarrow> word_graph \<times> mapping \<Rightarrow> error + (word_graph \<times> mapping)" where
  "add_edges_step j st =
     (case st of (self, mapping) \<Rightarrow>
      (case (mapping ! (j - 1), mapping ! j) of
         (Some u, Some v) \<Rightarrow> Inr (self\<lparr>graph := add_edge (graph self) u v\<rparr>, mapping)
       | _ \<Rightarrow> Inl KeyError))"

definition process_sentence :: "nat \<Rightarrow> word_graph \<Rightarrow> error + word_graph" where
  "process_sentence i self =
     (let sentence_len = length (sentence self ! i);
          mapping = replicate sentence_len None
      in bindE (foldE (pass1_step i) [0..<sentence_len] (self, mapping)) (\<lambda>st1.
         bindE (foldE (pass2_step i) [0..<sentence_len] st1) (\<lambda>st2.
         bindE (foldE (pass3_step i) [0..<sentence_len] st2) (\<lambda>st3.
         bindE (foldE (pass4_step i) [0..<sentence_len] st3) (\<lambda>st4.
         bindE (foldE add_edges_step [1..<sentence_len] st4) (\<lambda>st5.
           Inr (fst st5)))))))"

text \<open>The weight of every edge, computed once all sentences are in the graph.\<close>

definition compute_weights :: "rounding \<Rightarrow> word_graph \<Rightarrow> error + word_graph" where
  "compute_weights fl self =
     bindE (foldE (\<lambda>e g. case e of ((node1, node2), w) \<Rightarrow>
               bindE (get_edge_weight fl g (term_weight self) (length (sentence self)) node1 node2)
                 (\<lambda>edge_weight. Inr (set_edge_weight g node1 node2 edge_weight)))
             (g_edges (graph self)) (graph self))
       (\<lambda>g. Inr (self\<lparr>graph := g\<rparr>))"

definition build_graph :: "rounding \<Rightarrow> word_graph \<Rightarrow> error + word_graph" where
  "build_graph fl self =
     bindE (foldE process_sentence [0..<length (sentence self)] self) (compute_weights fl)"

text \<open>No node records two positions of the same sentence.\<close>

definition occ_distinct :: "digraph \<Rightarrow> bool" where
  "occ_distinct g \<longleftrightarrow> (\<forall>(n, a) \<in> set (g_nodes g). distinct (map fst (info a)))"

text \<open>The empty graph the constructor starts from, and a sentence with a repeated word.\<close>

definition empty_graph :: digraph where
  "empty_graph = \<lparr>g_nodes = [], g_edges = []\<rparr>"

definition aa_graph :: word_graph where
  "aa_graph =
     \<lparr>sentence = [[(''-start-'', ''-start-'', ''-start-''), (''a'', ''NN'', ''1''),
                   (''a'', ''NN'', ''1''), (''-end-'', ''-end-'', ''-end-'')]],
      nb_words = 1, stopwords = {}, graph = empty_graph,
      term_freq = Map.empty, term_weight = [''a/-/NN'' \<mapsto> Fin 2], verbs = {''VB''}\<rparr>"

text \<open>\<open>m\<close> is the first index of \<open>l\<close> that holds the maximum of \<open>l\<close>.\<close>

definition first_max :: "nat list \<Rightarrow> nat \<Rightarrow> bool" where
  "first_max l m \<longleftrightarrow> m < length l \<and> (\<forall>j < length l. l ! j \<le> l ! m) \<and> (\<forall>j < m. l ! j < l ! m)"

text \<open>
  Three sentences in which the word \<open>x\<close> gets two nodes. In the third sentence both
  nodes have the context overlap 1, and the second one has more occurrences.
\<close>

definition tie_sentences :: "token list list" where
  "tie_sentences =
     [[(''-start-'', ''-start-'', ''-start-''), (''p'', ''NN'', ''1''), (''x'', ''NN'', ''1''),
       (''q'', ''NN'', ''1''), (''r'', ''NN'', ''1''), (''x'', ''NN'', ''1''), (''s'', ''NN'', ''1''),
       (''-end-'', ''-end-'', ''-end-'')],
      [(''-start-'', ''-start-'', ''-start-''), (''r'', ''NN'', ''1''), (''x'', ''NN'', ''1''),
       (''t'', ''NN'', ''1''), (''-end-'', ''-end-'', ''-end-'')],
      [(''-start-'', ''-start-'', ''-start-''), (''p'', ''NN'', ''1''), (''x'', ''NN'', ''1''),
       (''s'', ''NN'', ''1''), (''-end-'', ''-end-'', ''-end-'')]]"

definition tie_graph :: word_graph where
  "tie_graph =
     \<lparr>sentence = tie_sentences, nb_words = 1, stopwords = {}, graph = empty_graph,
      term_freq = Map.empty, term_weight = Map.empty, verbs = {''VB''}\<rparr>"

text \<open>The graph and the mapping after pass 1 of the third sentence.\<close>

definition tie_state_graph :: digraph where
  "tie_state_graph =
     \<lparr>g_nodes =
        [((''-start-/-/-start-'', 0), \<lparr>info = [(0, 0), (1, 0), (2, 0)], label = ''-start-''\<rparr>),
         ((''p/-/NN'', 0), \<lparr>info = [(0, 1), (2, 1)], label = ''p''\<rparr>),
         ((''x/-/NN'', 0), \<lparr>info = [(0, 2)], label = ''x''\<rparr>),
         ((''q/-/NN'', 0), \<lparr>info = [(0, 3)], label = ''q''\<rparr>),
         ((''r/-/NN'', 0), \<lparr>info = [(0, 4), (1, 1)], label = ''r''\<rparr>),
         ((''x/-/NN'', 1), \<lparr>info = [(0, 5), (1, 2)], label = ''x''\<rparr>),
         ((''s/-/NN'', 0), \<lparr>info = [(0, 6), (2, 3)], label = ''s''\<rparr>),
         ((''-end-/-/-end-'', 0), \<lparr>info = [(0, 7), (1, 4), (2, 4)], label = ''-end-''\<rparr>),
         ((''t/-/NN'', 0), \<lparr>info = [(1, 3)], label = ''t''\<rparr>)],
      g_edges =
        [(((''-start-/-/-start-'', 0), ''p/-/NN'', 0), None),
         (((''p/-/NN'', 0), ''x/-/NN'', 0), None),
         (((''x/-/NN'', 0), ''q/-/NN'', 0), None),
         (((''q/-/NN'', 0), ''r/-/NN'', 0), None),
         (((''r/-/NN'', 0), ''x/-/NN'', 1), None),
         (((''x/-/NN'', 1), ''s/-/NN'', 0), None),
         (((''s/-/NN'', 0), ''-end-/-/-end-'', 0), None),
         (((''-start-/-/-start-'', 0), ''r/-/NN'', 0), None),
         (((''x/-/NN'', 1), ''t/-/NN'', 0), None),
         (((''t/-/NN'', 0), ''-end-/-/-end-'', 0), None)]\<rparr>"

definition tie_state :: word_graph where
  "tie_state = tie_graph\<lparr>graph := tie_state_graph\<rparr>"

definition tie_mapping :: mapping where
  "tie_mapping = [Some (''-start-/-/-start-'', 0), Some (''p/-/NN'', 0), None,
                  Some (''s/-/NN'', 0), Some (''-end-/-/-end-'', 0)]"

subsection \<open>Sorted insertion\<close>

text \<open>
  \<open>bisect.insort\<close>: a binary search with the test \<^verbatim>\<open>x < a[mid]\<close>, then the insertion at
  the position found. The comparison \<open>lt\<close> of the entries is a parameter.
\<close>

function bisect_right :: "('a \<Rightarrow> 'a \<Rightarrow> bool) \<Rightarrow> 'a list \<Rightarrow> 'a \<Rightarrow> nat \<Rightarrow> nat \<Rightarrow> nat" where
  "bisect_right lt a x lo hi =
     (if lo < hi then
        (let mid = (lo + hi) div 2
         in if lt x (a ! mid) then bisect_right lt a x lo mid else bisect_right lt a x (mid + 1) hi)
      else lo)"
  by pat_completeness auto
termination
  by (relation "measure (\<lambda>(lt, a, x, lo, hi). hi - lo)") auto

declare bisect_right.simps [simp del]

definition insort_right :: "('a \<Rightarrow> 'a \<Rightarrow> bool) \<Rightarrow> 'a list \<Rightarrow> 'a \<Rightarrow> 'a list" where
  "insort_right lt a x =
     (let lo = bisect_right lt a x 0 (length a) in take lo a @ [x] @ drop lo a)"

text \<open>
  The comparison \<^verbatim>\<open><\<close> of two tuples that start with a float: the first components
  decide unless they are equal, and NaN is equal to nothing. Strings are compared byte
  by byte, the other tuples and the lists lexicographically.
\<close>

definition tuple_lt :: "pyfloat \<times> 'a::linorder \<Rightarrow> pyfloat \<times> 'a \<Rightarrow> bool" where
  "tuple_lt a b = (if feq (fst a) (fst b) then snd a < snd b else flt (fst a) (fst b))"

subsection \<open>The k shortest paths\<close>

text \<open>\<^verbatim>\<open>s.split(sp)\<close> for a separator string; an empty separator raises.\<close>

function split_from :: "string \<Rightarrow> string \<Rightarrow> string \<Rightarrow> string list" where
  "split_from sp s cur =
     (if s = [] then [cur]
      else if sp \<noteq> [] \<and> take (length sp) s = sp then cur # split_from sp (drop (length sp) s) []
      else split_from sp (tl s) (cur @ [hd s]))"
  by pat_completeness auto
termination
  by (relation "measure (\<lambda>(sp, s, cur). length s)") auto

declare split_from.simps [simp del]

definition py_split :: "string \<Rightarrow> string \<Rightarrow> error + string list" where
  "py_split s sp = (if sp = [] then Inl ValueError else Inr (split_from sp s []))"

text \<open>\<^verbatim>\<open>word, tag = node[0].split(self.sep)\<close>: anything but two pieces raises.\<close>

definition word_tag :: "nkey \<Rightarrow> error + (string \<times> string)" where
  "word_tag node =
     bindE (py_split (fst node) sep) (\<lambda>pieces.
       case pieces of [word, tag] \<Rightarrow> Inr (word, tag) | _ \<Rightarrow> Inl ValueError)"

text \<open>\<^verbatim>\<open>s.strip()\<close>: white space removed at both ends.\<close>

definition is_space :: "char \<Rightarrow> bool" where
  "is_space c \<longleftrightarrow> c \<in> {CHR '' '', CHR 0x09, CHR 0x0A, CHR 0x0B, CHR 0x0C, CHR 0x0D}"

definition strip :: "string \<Rightarrow> string" where
  "strip s = rev (dropWhile is_space (rev (dropWhile is_space s)))"

text \<open>
  The counters of the constraints on a path that has reached the end node: verbs, words
  that are not punctuation marks, the parenthesis counter, quotation marks, and the
  sentence text. The path is held in reverse; its last node, the start node, is left out.
\<close>

record path_counters =
  nb_verbs :: nat
  length_words :: nat
  paired_parentheses :: int
  quotation_mark_number :: nat
  raw_sentence :: string

definition count_node :: "word_graph \<Rightarrow> nkey \<Rightarrow> path_counters \<Rightarrow> error + path_counters" where
  "count_node self node c =
     bindE (word_tag node) (\<lambda>(word, tag).
       let c1 = (if tag \<in> verbs self then c\<lparr>nb_verbs := nb_verbs c + 1\<rparr> else c);
           c2 = (if \<not> is_punct word then c1\<lparr>length_words := length_words c1 + 1\<rparr>
                 else if word = ''('' then c1\<lparr>paired_parentheses := paired_parentheses c1 - 1\<rparr>
                 else if word = '')'' then c1\<lparr>paired_parentheses := paired_parentheses c1 + 1\<rparr>
                 else if word = [CHR 0x22] then c1\<lparr>quotation_mark_number := quotation_mark_number c1 + 1\<rparr>
                 else c1)
       in Inr (c2\<lparr>raw_sentence := raw_sentence c2 @ word @ '' ''\<rparr>))"

definition count_path :: "word_graph \<Rightarrow> nkey list \<Rightarrow> error + path_counters" where
  "count_path self shortestpath =
     foldE (count_node self) (butlast shortestpath)
       \<lparr>nb_verbs = 0, length_words = 0, paired_parentheses = 0, quotation_mark_number = 0,
        raw_sentence = []\<rparr>"

text \<open>The state of the search.\<close>

type_synonym label = "pyfloat \<times> nkey \<times> nat"

record search =
  kshortestpaths :: "(nkey list \<times> pyfloat) list"
  orderedX :: "label list"
  paths :: "(label \<times> nkey list) list"
  visited :: "(nkey \<times> nat) list"
  sentence_container :: "string list"

text \<open>The body of the loop over the accessible nodes.\<close>

definition visit_node ::
  "rounding \<Rightarrow> word_graph \<Rightarrow> nkey \<Rightarrow> label \<Rightarrow> nkey list \<Rightarrow> nkey \<Rightarrow> search \<Rightarrow> error + search" where
  "visit_node fl self end_node shortest shortestpath node st =
     (if node \<in> set shortestpath then Inr st
      else
        bindE (edge_weight (graph self) (fst (snd shortest)) node) (\<lambda>ew.
          let w = fadd fl (fst shortest) ew
          in if node = end_node then
               bindE (count_path self shortestpath) (\<lambda>c.
                 let sent = strip (raw_sentence c)
                 in if nb_verbs c > 0 \<and> int (length_words c) \<ge> nb_words self \<and>
                       paired_parentheses c = 0 \<and> quotation_mark_number c mod 2 = 0 \<and>
                       sent \<notin> set (sentence_container st)
                    then Inr (st\<lparr>kshortestpaths := kshortestpaths st @ [(rev (node # shortestpath), w)],
                                 sentence_container := sent # sentence_container st\<rparr>)
                    else Inr st)
             else
               (let ident = (case map_of (visited st) node of Some n \<Rightarrow> n + 1 | None \<Rightarrow> 0)
                in Inr (st\<lparr>visited := AList.update node ident (visited st),
                            orderedX := insort_right tuple_lt (orderedX st) (w, node, ident),
                            paths := AList.update (w, node, ident) (node # shortestpath) (paths st)\<rparr>))))"

text \<open>
  The \<open>while\<close> loop. It is modelled as a function that need not return; what it
  returns is an error or the final state.
\<close>

partial_function (option) search_loop ::
  "rounding \<Rightarrow> word_graph \<Rightarrow> nkey \<Rightarrow> int \<Rightarrow> search \<Rightarrow> (error + search) option" where
  "search_loop fl self end_node k st =
     (if int (length (kshortestpaths st)) < k \<and> length (orderedX st) > 0 then
        (case orderedX st of
           [] \<Rightarrow> Some (Inl IndexError)
         | shortest # rest \<Rightarrow>
             (case map_of (paths st) shortest of
                None \<Rightarrow> Some (Inl KeyError)
              | Some shortestpath \<Rightarrow>
                  (case neighbors (graph self) (fst (snd shortest)) of
                     Inl e \<Rightarrow> Some (Inl e)
                   | Inr ns \<Rightarrow>
                       (case foldE (visit_node fl self end_node shortest shortestpath) ns
                               (st\<lparr>orderedX := rest, paths := AList.delete shortest (paths st)\<rparr>) of
                          Inl e \<Rightarrow> Some (Inl e)
                        | Inr st' \<Rightarrow> search_loop fl self end_node k st'))))
      else Some (Inr st))"

declare search_loop.simps [code]

definition k_shortest_paths ::
  "rounding \<Rightarrow> word_graph \<Rightarrow> nkey \<Rightarrow> nkey \<Rightarrow> int \<Rightarrow>
   (error + (nkey list \<times> pyfloat) list) option" where
  "k_shortest_paths fl self start_node end_node k =
     map_option (map_sum id kshortestpaths)
       (search_loop fl self end_node k
          \<lparr>kshortestpaths = [], orderedX = [(Fin 0, start_node, 0)],
           paths = [((Fin 0, start_node, 0), [start_node])], visited = [(start_node, 0)],
           sentence_container = []\<rparr>)"

subsection \<open>The compression candidates\<close>

text \<open>The (word, POS) pairs of the nodes between the first and the last node of a path.\<close>

definition word_tags :: "nkey list \<Rightarrow> error + (string \<times> string) list" where
  "word_tags nodes =
     foldE (\<lambda>node sentence. bindE (word_tag node) (\<lambda>wt. Inr (sentence @ [wt]))) nodes []"

definition path_sentence :: "nkey list \<Rightarrow> error + (string \<times> string) list" where
  "path_sentence nodes = word_tags (butlast (tl nodes))"

definition get_compression ::
  "rounding \<Rightarrow> word_graph \<Rightarrow> int \<Rightarrow>
   (error + (pyfloat \<times> (string \<times> string) list) list) option" where
  "get_compression fl self nb_candidates =
     (case k_shortest_paths fl self (start @ sep @ start, 0) (stop @ sep @ stop, 0) nb_candidates of
        None \<Rightarrow> None
      | Some (Inl e) \<Rightarrow> Some (Inl e)
      | Some (Inr ps) \<Rightarrow>
          Some (foldE (\<lambda>p fusions.
                        bindE (path_sentence (fst p)) (\<lambda>sentence.
                          Inr (insort_right tuple_lt fusions (snd p, sentence))))
                  (take (nat (min nb_candidates (int (length ps)))) ps) []))"

text \<open>
  Two sentences in which the word \<open>x\<close> occurs twice. At the second \<open>x\<close> of the second
  sentence the first node of \<open>x\<close> has the higher overlap and already holds the first
  \<open>x\<close> of that sentence.
\<close>

definition slip_sentences :: "token list list" where
  "slip_sentences =
     [[(''-start-'', ''-start-'', ''-start-''), (''p'', ''NN'', ''1''), (''x'', ''NN'', ''1''),
       (''q'', ''NN'', ''1''), (''r'', ''NN'', ''1''), (''x'', ''NN'', ''1''), (''s'', ''NN'', ''1''),
       (''-end-'', ''-end-'', ''-end-'')],
      [(''-start-'', ''-start-'', ''-start-''), (''p'', ''NN'', ''1''), (''x'', ''NN'', ''1''),
       (''q'', ''NN'', ''1''), (''p'', ''NN'', ''1''), (''x'', ''NN'', ''1''), (''q'', ''NN'', ''1''),
       (''-end-'', ''-end-'', ''-end-'')]]"

definition slip_graph :: word_graph where
  "slip_graph =
     \<lparr>sentence = slip_sentences, nb_words = 1, stopwords = {}, graph = empty_graph,
      term_freq = Map.empty, term_weight = Map.empty, verbs = {''VB''}\<rparr>"

text \<open>The state in which pass 2 reaches the second \<open>x\<close> of the second sentence.\<close>

definition slip_state :: "error + (word_graph \<times> mapping)" where
  "slip_state =
     bindE (foldE process_sentence [0..<1] slip_graph) (\<lambda>self.
     bindE (foldE (pass1_step 1) [0..<8] (self, replicate 8 None)) (\<lambda>st1.
       foldE (pass2_step 1) [0..<5] st1))"

text \<open>
  A float that is not negative and not NaN; and a pair of nodes that hold two
  consecutive positions of one of the first \<open>n\<close> sentences.
\<close>

definition nonneg_float :: "rounding \<Rightarrow> pyfloat \<Rightarrow> bool" where
  "nonneg_float fl a \<longleftrightarrow> a = PInf \<or> (\<exists>x \<ge> 0. a = Fin x \<and> fl x = Fin x)"

definition adjacent_in :: "digraph \<Rightarrow> nat \<Rightarrow> nkey \<Rightarrow> nkey \<Rightarrow> bool" where
  "adjacent_in g n u v \<longleftrightarrow>
     (\<exists>info1 info2 s p. node_info_of g u = Inr info1 \<and> node_info_of g v = Inr info2 \<and>
        s < n \<and> (s, p) \<in> set info1 \<and> (s, Suc p) \<in> set info2)"

text \<open>
  What holds of the graph and of \<open>mapping\<close> while sentence \<open>i\<close> is processed: every edge
  joins two nodes that hold consecutive positions of a sentence, and the node recorded
  for a position holds that position.
\<close>

definition edges_adjacent :: "digraph \<Rightarrow> nat \<Rightarrow> bool" where
  "edges_adjacent g n \<longleftrightarrow> (\<forall>e \<in> set (g_edges g). adjacent_in g n (fst (fst e)) (snd (fst e)))"

definition mapping_ok :: "digraph \<Rightarrow> nat \<Rightarrow> mapping \<Rightarrow> bool" where
  "mapping_ok g i mapping \<longleftrightarrow>
     (\<forall>j < length mapping. \<forall>n. mapping ! j = Some n \<longrightarrow>
        (\<exists>occs. node_info_of g n = Inr occs \<and> (i, j) \<in> set occs))"

definition info_grows :: "digraph \<Rightarrow> digraph \<Rightarrow> bool" where
  "info_grows g g' \<longleftrightarrow>
     g_edges g' = g_edges g \<and>
     (\<forall>n occs. node_info_of g n = Inr occs \<longrightarrow>
        (\<exists>occs'. node_info_of g' n = Inr occs' \<and> set occs \<subseteq> set occs'))"

definition pass_inv :: "token list list \<Rightarrow> nat \<Rightarrow> nat \<Rightarrow> word_graph \<times> mapping \<Rightarrow> bool" where
  "pass_inv ss i len st \<longleftrightarrow>
     sentence (fst st) = ss \<and> length (snd st) = len \<and>
     edges_adjacent (graph (fst st)) (length ss) \<and> mapping_ok (graph (fst st)) i (snd st)"

text \<open>What a step of a pass does to the graph and \<open>mapping\<close> at position \<open>j\<close>.\<close>

definition pass_step :: "nat \<Rightarrow> nat \<Rightarrow> word_graph \<times> mapping \<Rightarrow> word_graph \<times> mapping \<Rightarrow> bool" where
  "pass_step i j st st' \<longleftrightarrow>
     st' = st \<or>
     (\<exists>n t. \<not> has_node (graph (fst st)) n \<and>
        st' = (new_node (fst st) n i j t, (snd st)[j := Some n])) \<or>
     (\<exists>n self'. attach (fst st) n i j = Inr self' \<and> st' = (self', (snd st)[j := Some n]))"

subsection \<open>The constructor of the word graph\<close>

text \<open>
  The caller's list of sentences is an object of the Python heap, and the constructor
  works on a copy of it. The heap is modelled as far as lists of sentences go: a store
  maps an address to the elements of the list object at that address. An element is a
  string, or what the two classes replace it by: a list of (word, POS, weight) triples,
  or a list of (word, POS) pairs. Strings and tuples are immutable values.
\<close>

datatype pyval = Str string | Tokens "token list" | Pairs "(string \<times> string) list"

type_synonym store = "pyval list list"

text \<open>\<^verbatim>\<open>list(xs)\<close>: a new list object with the elements of \<open>xs\<close>.\<close>

definition copy_list :: "store \<Rightarrow> nat \<Rightarrow> store \<times> nat" where
  "copy_list st a = (st @ [st ! a], length st)"

text \<open>\<^verbatim>\<open>xs[i] = v\<close> on the list object at address \<open>a\<close>.\<close>

definition store_item :: "store \<Rightarrow> nat \<Rightarrow> nat \<Rightarrow> pyval \<Rightarrow> store" where
  "store_item st a i v = st[a := (st ! a)[i := v]]"

text \<open>\<^verbatim>\<open>re.sub(' +', ' ', s)\<close>: every run of spaces becomes one space (a space before
  a space is dropped).\<close>

fun squeeze_spaces :: "string \<Rightarrow> string" where
  "squeeze_spaces [] = []"
| "squeeze_spaces (c # cs) =
     (if c = CHR '' '' \<and> cs \<noteq> [] \<and> hd cs = CHR '' '' then squeeze_spaces cs
      else c # squeeze_spaces cs)"

text \<open>
  The token patterns. \<open>first_some\<close> tries the alternatives of a backtracking match in
  order. A group \<^verbatim>\<open>(.+)\<close> is greedy: the longest candidate is tried first, and it does not
  contain a newline. \<^verbatim>\<open>(\d+(\.\d+)*)$\<close> takes groups of digits separated by dots up to the
  end of the string, or up to a newline that ends the string.
\<close>

primrec first_some :: "('a \<Rightarrow> 'b option) \<Rightarrow> 'a list \<Rightarrow> 'b option" where
  "first_some f [] = None"
| "first_some f (x # xs) = (case f x of Some y \<Rightarrow> Some y | None \<Rightarrow> first_some f xs)"

definition is_digit :: "char \<Rightarrow> bool" where
  "is_digit c \<longleftrightarrow> CHR ''0'' \<le> c \<and> c \<le> CHR ''9''"

definition is_number :: "string \<Rightarrow> bool" where
  "is_number s \<longleftrightarrow> (\<forall>g \<in> set (split_from ''.'' s []). g \<noteq> [] \<and> (\<forall>c \<in> set g. is_digit c))"

definition number_at_end :: "string \<Rightarrow> string option" where
  "number_at_end r =
     (if is_number r then Some r
      else if r \<noteq> [] \<and> last r = CHR 0x0A \<and> is_number (butlast r) then Some (butlast r)
      else None)"

definition longest_first :: "string \<Rightarrow> nat list" where
  "longest_first s = rev [1..<Suc (length s)]"

text \<open>\<^verbatim>\<open>re.match("^(.+)" + sp + "(.+)" + sp + "(\d+(\.\d+)*)$", w)\<close>, with its three groups.\<close>

definition match_token :: "string \<Rightarrow> string \<Rightarrow> (string \<times> string \<times> string) option" where
  "match_token sp w =
     first_some (\<lambda>a.
        let r = drop a w
        in if CHR 0x0A \<in> set (take a w) \<or> take (length sp) r \<noteq> sp then None
           else
             (let r2 = drop (length sp) r
              in first_some (\<lambda>b.
                   let r3 = drop b r2
                   in if CHR 0x0A \<in> set (take b r2) \<or> take (length sp) r3 \<noteq> sp then None
                      else map_option (\<lambda>n. (take a w, take b r2, n))
                             (number_at_end (drop (length sp) r3)))
                 (longest_first r2)))
       (longest_first w)"

text \<open>\<^verbatim>\<open>re.match("^(.+)" + sp + "(.+)$", w)\<close>, with its two groups.\<close>

definition match_wordpos :: "string \<Rightarrow> string \<Rightarrow> (string \<times> string) option" where
  "match_wordpos sp w =
     first_some (\<lambda>a.
        let r = drop a w
        in if CHR 0x0A \<in> set (take a w) \<or> take (length sp) r \<noteq> sp then None
           else
             (let r2 = drop (length sp) r;
                  b = (if r2 \<noteq> [] \<and> last r2 = CHR 0x0A then butlast r2 else r2)
              in if b = [] \<or> CHR 0x0A \<in> set b then
                   (if r2 \<noteq> [] \<and> CHR 0x0A \<notin> set r2 then Some (take a w, r2) else None)
                 else Some (take a w, b)))
       (longest_first w)"

text \<open>
  \<^verbatim>\<open>float(s)\<close> on the strings the token pattern lets through: digits with at most one
  dot and digits after it, rounded; with more dots the conversion raises.
\<close>

definition digits_value :: "string \<Rightarrow> nat" where
  "digits_value s = foldl (\<lambda>n c. 10 * n + (of_char c - of_char CHR ''0'')) 0 s"

definition py_float :: "rounding \<Rightarrow> string \<Rightarrow> error + pyfloat" where
  "py_float fl s =
     (if \<not> is_number s then Inl ValueError
      else
        (case split_from ''.'' s [] of
           [i] \<Rightarrow> Inr (fl (real (digits_value i)))
         | [i, f] \<Rightarrow> Inr (fl (real (digits_value i) + real (digits_value f) / 10 ^ length f))
         | _ \<Rightarrow> Inl ValueError))"

text \<open>The tokens of the words of a sentence; a word that does not match raises.\<close>

definition tokens_of :: "string \<Rightarrow> string list \<Rightarrow> error + token list" where
  "tokens_of sp words =
     foldE (\<lambda>w container.
              case match_token sp w of
                None \<Rightarrow> Inl AttributeError
              | Some (token, pos, weight) \<Rightarrow> Inr (container @ [(lower token, pos, weight)]))
       words [(start, start, start)]"

text \<open>
  \<open>pre_process_sentences\<close>, for the list object at address \<open>a\<close>: one sentence, then
  the loop. The sentence is written back three times; an exception leaves the store as
  it is at that moment.
\<close>

definition pre_process_sentence :: "string \<Rightarrow> nat \<Rightarrow> nat \<Rightarrow> store \<Rightarrow> store \<times> error option" where
  "pre_process_sentence sp a i st =
     (case st ! a ! i of
        Str s \<Rightarrow>
          (let st1 = store_item st a i (Str (squeeze_spaces s));
               s2 = strip (squeeze_spaces s);
               st2 = store_item st1 a i (Str s2)
           in case tokens_of sp (split_space s2) of
                Inl e \<Rightarrow> (st2, Some e)
              | Inr container \<Rightarrow>
                  (store_item st2 a i (Tokens (container @ [(stop, stop, stop)])), None))
      | _ \<Rightarrow> (st, Some TypeError))"

fun pre_process_sentences :: "string \<Rightarrow> nat \<Rightarrow> nat list \<Rightarrow> store \<Rightarrow> store \<times> error option" where
  "pre_process_sentences sp a [] st = (st, None)"
| "pre_process_sentences sp a (i # rest) st =
     (case pre_process_sentence sp a i st of
        (st', Some e) \<Rightarrow> (st', Some e)
      | (st', None) \<Rightarrow> pre_process_sentences sp a rest st')"

text \<open>The preprocessed sentences, as the rest of the class reads them.\<close>

definition read_sentences :: "pyval list \<Rightarrow> error + token list list" where
  "read_sentences vs =
     foldE (\<lambda>v ss. case v of Tokens ts \<Rightarrow> Inr (ss @ [ts]) | _ \<Rightarrow> Inl TypeError) vs []"

text \<open>
  \<open>compute_statistics\<close>: the number of occurrences and the sum of the weights of every
  \<open>word/-/pos\<close>; the start and end tokens have no weight.
\<close>

definition count_token :: "rounding \<Rightarrow> token \<Rightarrow> word_graph \<Rightarrow> error + word_graph" where
  "count_token fl t self =
     (case t of (token, pos, weight) \<Rightarrow>
        (let node = lower token @ sep @ pos;
             self1 = self\<lparr>term_freq := (term_freq self)(node \<mapsto>
                       (case term_freq self node of None \<Rightarrow> 1 | Some n \<Rightarrow> n + 1))\<rparr>
         in if weight = start \<or> weight = stop then Inr self1
            else bindE (py_float fl weight) (\<lambda>x.
                   Inr (self1\<lparr>term_weight := (term_weight self1)(node \<mapsto>
                          fadd fl (case term_weight self1 node of None \<Rightarrow> Fin 0 | Some tw \<Rightarrow> tw)
                            x)\<rparr>))))"

definition compute_statistics :: "rounding \<Rightarrow> word_graph \<Rightarrow> error + word_graph" where
  "compute_statistics fl self = foldE (count_token fl) (concat (sentence self)) self"

text \<open>
  \<open>load_stopwords\<close>. The file system is a parameter of the model: a map from the name of
  a resource file to its lines.
\<close>

definition load_stopwords :: "(string \<rightharpoonup> string list) \<Rightarrow> string \<Rightarrow> error + string set" where
  "load_stopwords files path =
     (case files path of
        None \<Rightarrow> Inl IOError
      | Some lines \<Rightarrow>
          Inr (set (map (\<lambda>line. lower (strip line))
                 (filter (\<lambda>line. \<not> (line \<noteq> [] \<and> hd line = CHR ''#'') \<and> length (strip line) > 0)
                    lines))))"

text \<open>
  \<open>word_graph.__init__\<close>. The result is the store after the call, and the object or
  the exception raised.
\<close>

definition word_graph_init ::
  "rounding \<Rightarrow> (string \<rightharpoonup> string list) \<Rightarrow> store \<Rightarrow> nat \<Rightarrow> int \<Rightarrow> string \<Rightarrow> string \<Rightarrow>
   string \<Rightarrow> store \<times> (error + word_graph)" where
  "word_graph_init fl files st sentence_list nb_words' lang punct_tag pos_separator =
     (case copy_list st sentence_list of (st1, a) \<Rightarrow>
       (case load_stopwords files (''stopwords.'' @ lang @ ''.dat'') of
          Inl e \<Rightarrow> (st1, Inl e)
        | Inr sw \<Rightarrow>
            (case pre_process_sentences pos_separator a [0..<length (st ! sentence_list)] st1 of
               (st2, Some e) \<Rightarrow> (st2, Inl e)
             | (st2, None) \<Rightarrow>
                 (st2,
                  bindE (read_sentences (st2 ! a)) (\<lambda>ss.
                  bindE (compute_statistics fl
                           \<lparr>sentence = ss, nb_words = nb_words', stopwords = sw,
                            graph = \<lparr>g_nodes = [], g_edges = []\<rparr>,
                            term_freq = Map.empty, term_weight = Map.empty,
                            verbs = (if lang = ''fr'' then {''V'', ''VPP'', ''VINF''}
                                     else {''VB'', ''VBD'', ''VBP'', ''VBZ'', ''VH'', ''VHD'',
                                           ''VHP'', ''VBZ'', ''VV'', ''VVD'', ''VVP'', ''VVZ''})\<rparr>)
                    (build_graph fl))))))"

(*DEFS-END*)

section \<open>Properties\<close>

subsection \<open>TextRank\<close>



lemma textrank_loop_empty:
  assumes "textrank_loop g d f_conv st = Some r"
  shows "\<not> (u_nodes g = [] \<and> f_conv \<le> snd st)"
proof (rule textrank_loop.raw_induct
    [where P = "\<lambda>g d f_conv st r. \<not> (u_nodes g = [] \<and> f_conv \<le> snd st)", OF _ assms])
  fix loop g d f_conv st r
  assume IH: "\<And>g d f_conv st y. loop g d f_conv st = Some y \<Longrightarrow>
      \<not> (u_nodes g = [] \<and> f_conv \<le> snd st)"
    and eq: "(if f_conv \<le> snd st
        then case sweep g d (fst st) (u_nodes g) st of Inl e \<Rightarrow> Some (Inl e)
             | Inr st' \<Rightarrow> loop g d f_conv st'
        else Some (Inr (fst st))) = Some (r :: error + (wnode \<rightharpoonup> real))"
  show "\<not> (u_nodes g = [] \<and> f_conv \<le> snd st)"
  proof
    assume a: "u_nodes g = [] \<and> f_conv \<le> snd st"
    have "sweep g d (fst st) [] st = Inr st" by (cases st) simp
    with eq a have "loop g d f_conv st = Some r" by simp
    with IH a show False by blast
  qed
qed





text \<open>
  C9. On a graph without nodes a sweep changes nothing, \<open>max_node_difference\<close> keeps its
  initial value \<open>f_conv\<close>, the loop test \<open>max_node_difference >= f_conv\<close> stays true and
  \<open>undirected_TextRank\<close> does not return.
\<close>

theorem textrank_empty_diverges:
  assumes "u_nodes g = []"
  shows "undirected_TextRank g d f_conv = None"
proof (cases "undirected_TextRank g d f_conv")
  case None
  then show ?thesis .
next
  case (Some r)
  then have "textrank_loop g d f_conv (init_scores (u_nodes g), f_conv) = Some r"
    by (simp add: undirected_TextRank_def)
  then have "\<not> (u_nodes g = [] \<and> f_conv \<le> snd (init_scores (u_nodes g), f_conv))"
    by (rule textrank_loop_empty)
  with assms show ?thesis by simp
qed

theorem textrank_empty_diverges_witness:
  "undirected_TextRank empty_ugraph (17 / 20) (1 / 10000) = None"
proof -
  have "u_nodes empty_ugraph = []" by (simp add: empty_ugraph_def)
  then show ?thesis by (rule textrank_empty_diverges)
qed

subsection \<open>Clustering\<close>

lemma add_to_clusters_eq:
  "add_to_clusters kp cs found =
     (map (\<lambda>(c, ms). (c, if covered_by kp c then ms @ [kp] else ms)) cs,
      found \<or> (\<exists>(c, ms) \<in> set cs. covered_by kp c))"
  by (induction cs arbitrary: found) (auto split: prod.splits)

lemma cluster_step_eq:
  "cluster_step cs kp =
     (if \<exists>(c, ms) \<in> set cs. covered_by kp c
      then map (\<lambda>(c, ms). (c, if covered_by kp c then ms @ [kp] else ms)) cs
      else cs @ [(kp, [kp])])"
proof -
  have "(\<forall>(c, ms) \<in> set cs. \<not> covered_by kp c) \<Longrightarrow>
        map (\<lambda>(c, ms). (c, if covered_by kp c then ms @ [kp] else ms)) cs = cs"
    by (induction cs) auto
  then show ?thesis
    by (auto simp: cluster_step_def add_to_clusters_eq)
qed

lemma placed_cluster_step_self: "placed kp (cluster_step cs kp)"
  unfolding cluster_step_eq placed_def by (auto split: if_splits) force

lemma placed_cluster_step_mono: "placed k cs \<Longrightarrow> placed k (cluster_step cs kp)"
  unfolding cluster_step_eq placed_def by (auto split: if_splits) force+

lemma placed_foldl_mono: "placed k cs \<Longrightarrow> placed k (foldl cluster_step cs ks)"
  by (induction ks arbitrary: cs) (auto intro: placed_cluster_step_mono)

lemma placed_foldl: "k \<in> set ks \<Longrightarrow> placed k (foldl cluster_step cs ks)"
proof (induction ks arbitrary: cs)
  case Nil
  then show ?case by simp
next
  case (Cons a ks)
  show ?case
  proof (cases "k = a")
    case True
    then show ?thesis
      using placed_foldl_mono [OF placed_cluster_step_self, of a cs ks] by simp
  next
    case False
    with Cons show ?thesis by simp
  qed
qed

lemma processing_order_sorted:
  "sorted_wrt (\<lambda>a b. length (snd b) \<le> length (snd a)) (processing_order cands)"
proof -
  have "sorted (map (\<lambda>(keyphrase, candidate). - int (length candidate)) (processing_order cands))"
    unfolding processing_order_def by (rule sorted_sort_key)
  then show ?thesis
    by (simp add: sorted_map case_prod_unfold sorted_wrt_iff_nth_less)
qed

text \<open>
  C5 (as the code has it). The candidates are taken by decreasing number of words. The
  loop over the clusters has no \<open>break\<close>: a candidate is appended to every existing
  cluster whose representative's words include its words, and only when there is none a
  new cluster keyed by the candidate is created. Hence every candidate ends in at least
  one cluster, possibly in several.
\<close>

theorem cluster_step_places:
  "cluster_step clusters keyphrase =
     (if \<exists>(cluster, members) \<in> set clusters. covered_by keyphrase cluster
      then map (\<lambda>(cluster, members).
             (cluster, if covered_by keyphrase cluster then members @ [keyphrase] else members))
           clusters
      else clusters @ [(keyphrase, [keyphrase])]) \<and>
   sorted_wrt (\<lambda>a b. length (snd b) \<le> length (snd a)) (processing_order cands) \<and>
   mset (processing_order cands) = mset cands \<and>
   (\<forall>k \<in> fst ` set cands. placed k (build_clusters cands))"
proof (intro conjI ballI)
  show "cluster_step clusters keyphrase =
     (if \<exists>(cluster, members) \<in> set clusters. covered_by keyphrase cluster
      then map (\<lambda>(cluster, members).
             (cluster, if covered_by keyphrase cluster then members @ [keyphrase] else members))
           clusters
      else clusters @ [(keyphrase, [keyphrase])])"
    by (rule cluster_step_eq)
  show "sorted_wrt (\<lambda>a b. length (snd b) \<le> length (snd a)) (processing_order cands)"
    by (rule processing_order_sorted)
  show "mset (processing_order cands) = mset cands"
    by (simp add: processing_order_def)
next
  fix k
  assume "k \<in> fst ` set cands"
  then have "k \<in> set (descending_keys cands)"
    by (simp add: descending_keys_def processing_order_def)
  then show "placed k (build_clusters cands)"
    unfolding build_clusters_def by (rule placed_foldl)
qed

theorem cluster_step_places_witness:
  "cluster_step [(''a b c'', [''a b c'']), (''a b d'', [''a b d''])] ''a b'' =
     [(''a b c'', [''a b c'', ''a b'']), (''a b d'', [''a b d'', ''a b''])] \<and>
   placed ''a b'' (build_clusters abc_candidates)"
proof -
  have c: "covered_by ''a b'' ''a b c''" "covered_by ''a b'' ''a b d''"
    by (simp_all add: covered_by_def)
  have m: "''a b'' \<in> fst ` set abc_candidates"
    by (simp add: abc_candidates_def)
  have t: "cluster_step [(''a b c'', [''a b c'']), (''a b d'', [''a b d''])] ''a b'' =
     (if \<exists>(cluster, members) \<in> set [(''a b c'', [''a b c'']), (''a b d'', [''a b d''])].
          covered_by ''a b'' cluster
      then map (\<lambda>(cluster, members).
             (cluster, if covered_by ''a b'' cluster then members @ [''a b''] else members))
           [(''a b c'', [''a b c'']), (''a b d'', [''a b d''])]
      else [(''a b c'', [''a b c'']), (''a b d'', [''a b d''])] @ [(''a b'', [''a b''])])"
    and p: "\<forall>k \<in> fst ` set abc_candidates. placed k (build_clusters abc_candidates)"
    using cluster_step_places
      [of "[(''a b c'', [''a b c'']), (''a b d'', [''a b d''])]" "''a b''" abc_candidates]
    by blast+
  from p m have "placed ''a b'' (build_clusters abc_candidates)" by blast
  moreover from t c
  have "cluster_step [(''a b c'', [''a b c'']), (''a b d'', [''a b d''])] ''a b'' =
     [(''a b c'', [''a b c'', ''a b'']), (''a b d'', [''a b d'', ''a b''])]"
    by simp
  ultimately show ?thesis by blast
qed

text \<open>
  C5 as stated fails: the candidate \<open>a b\<close> is covered by the representatives of both
  clusters and is placed into both, not only into the first one.
\<close>

theorem candidate_in_two_clusters:
  "build_clusters abc_candidates =
     [(''a b c'', [''a b c'', ''a b'']), (''a b d'', [''a b d'', ''a b''])]"
  by (simp add: build_clusters_def descending_keys_def processing_order_def abc_candidates_def
      cluster_step_def covered_by_def)

subsection \<open>Building the word graph\<close>

subsection \<open>Sequencing\<close>

lemma bindE_Inr_iff: "bindE m f = Inr y \<longleftrightarrow> (\<exists>x. m = Inr x \<and> f x = Inr y)"
  by (cases m) (simp_all add: bindE_def)

lemma bindE_simps [simp]: "bindE (Inl e) f = Inl e" "bindE (Inr x) f = f x"
  by (simp_all add: bindE_def)

lemma foldE_invariant:
  assumes "foldE f xs s = Inr s'" and "P s"
    and "\<And>x t t'. x \<in> set xs \<Longrightarrow> P t \<Longrightarrow> f x t = Inr t' \<Longrightarrow> P t'"
  shows "P s'"
  using assms
proof (induction xs arbitrary: s)
  case Nil
  then show ?case by simp
next
  case (Cons a xs)
  from Cons.prems(1) obtain t where t: "f a s = Inr t" and r: "foldE f xs t = Inr s'"
    by (auto simp: bindE_Inr_iff)
  have "P t" using Cons.prems(2,3) t by (metis list.set_intros(1))
  with r show ?case
    using Cons.prems(3) by (intro Cons.IH [of t]) auto
qed

subsection \<open>Same-sentence exclusion\<close>

lemma set_update_subset: "set (AList.update k v al) \<subseteq> insert (k, v) (set al)"
  by (induction al) auto

lemma occ_distinct_add_node:
  "occ_distinct g \<Longrightarrow> distinct (map fst (info a)) \<Longrightarrow> occ_distinct (add_node g n a)"
  using set_update_subset [of n a "g_nodes g"]
  by (auto simp: occ_distinct_def add_node_def)

lemma occ_distinct_new_node:
  "occ_distinct (graph self) \<Longrightarrow> occ_distinct (graph (new_node self n i j t))"
  by (simp add: new_node_def occ_distinct_add_node)

lemma occ_distinct_attach:
  assumes "occ_distinct (graph self)" and "attach self n i j = Inr self'"
    and "node_info_of (graph self) n = Inr occs" and "i \<notin> set (map fst occs)"
  shows "occ_distinct (graph self')"
proof -
  from assms(3) obtain a where a: "map_of (g_nodes (graph self)) n = Some a" and o: "occs = info a"
    by (auto simp: node_info_of_def split: option.splits)
  from assms(2) a have g: "graph self' =
      (graph self)\<lparr>g_nodes := AList.update n (a\<lparr>info := info a @ [(i, j)]\<rparr>) (g_nodes (graph self))\<rparr>"
    by (auto simp: attach_def append_info_def bindE_Inr_iff)
  from a have "(n, a) \<in> set (g_nodes (graph self))" by (rule map_of_SomeD)
  with assms(1) have "distinct (map fst (info a))" by (auto simp: occ_distinct_def)
  with assms(4) o have "distinct (map fst (info (a\<lparr>info := info a @ [(i, j)]\<rparr>)))" by simp
  with assms(1) show ?thesis
    unfolding g
    using set_update_subset [of n "a\<lparr>info := info a @ [(i, j)]\<rparr>" "g_nodes (graph self)"]
    by (auto simp: occ_distinct_def)
qed


lemma pass1_step_occ_distinct:
  assumes "pass1_step i j st = Inr st'" and "occ_distinct (graph (fst st))"
  shows "occ_distinct (graph (fst st'))"
proof -
  obtain self mapping where st: "st = (self, mapping)" by (cases st)
  obtain token pos weight where t: "sentence self ! i ! j = (token, pos, weight)"
    by (cases "sentence self ! i ! j")
  let ?node = "lower token @ sep @ pos"
  define k where "k = ambiguous_nodes self ?node"
  have inv: "occ_distinct (graph self)" using assms(2) st by simp
  consider (skip) "token \<in> stopwords self \<or> is_punct token"
    | (zero) "\<not> (token \<in> stopwords self \<or> is_punct token)" "k = 0"
    | (one) "\<not> (token \<in> stopwords self \<or> is_punct token)" "k = 1"
    | (many) "\<not> (token \<in> stopwords self \<or> is_punct token)" "k \<noteq> 0" "k \<noteq> 1"
    by blast
  then show ?thesis
  proof cases
    case skip
    with assms(1) have "st' = (self, mapping)"
      by (simp add: pass1_step_def st t)
    with inv show ?thesis by simp
  next
    case zero
    with assms(1) have "st' = (new_node self (?node, 0) i j token, mapping[j := Some (?node, 0)])"
      by (simp add: pass1_step_def st t Let_def k_def [symmetric])
    with inv show ?thesis by (simp add: occ_distinct_new_node)
  next
    case one
    with assms(1) obtain occs where occs: "node_info_of (graph self) (?node, 0) = Inr occs"
      and r: "(if i \<notin> set (map fst occs)
               then bindE (attach self (?node, 0) i j) (\<lambda>self'. Inr (self', mapping[j := Some (?node, 0)]))
               else Inr (new_node self (?node, 1) i j token, mapping[j := Some (?node, 1)])) = Inr st'"
      by (simp add: pass1_step_def st t Let_def k_def [symmetric] bindE_Inr_iff) blast
    show ?thesis
    proof (cases "i \<in> set (map fst occs)")
      case True
      with r have "st' = (new_node self (?node, 1) i j token, mapping[j := Some (?node, 1)])"
        by simp
      with inv show ?thesis by (simp add: occ_distinct_new_node)
    next
      case False
      with r obtain self' where a: "attach self (?node, 0) i j = Inr self'"
        and s: "st' = (self', mapping[j := Some (?node, 0)])"
        by (auto simp: bindE_Inr_iff)
      from inv a occs False have "occ_distinct (graph self')" by (rule occ_distinct_attach)
      with s show ?thesis by simp
    qed
  next
    case many
    with assms(1) have "st' = (self, mapping)"
      by (simp add: pass1_step_def st t Let_def k_def [symmetric])
    with inv show ?thesis by simp
  qed
qed

lemma select_candidate_found:
  "select_candidate g node i ov fr = Inr (True, selected) \<Longrightarrow>
   \<exists>occs. node_info_of g (node, selected) = Inr occs \<and> i \<notin> set (map fst occs)"
proof (induction g node i ov fr rule: select_candidate.induct)
  case (1 g node i ov fr)
  from "1.prems" obtain best sel occs where
    b: "max_index ov = Inr best"
    and s: "(if ov ! best = 0 then max_index fr else Inr best) = Inr sel"
    and oc: "node_info_of g (node, sel) = Inr occs"
    and r: "(if i \<notin> set (map fst occs) then Inr (True, sel)
             else bindE (del_at ov sel) (\<lambda>ov'. bindE (del_at fr sel) (\<lambda>fr'.
                    if length ov' = 0 then Inr (False, sel)
                    else select_candidate g node i ov' fr'))) = Inr (True, selected)"
    by (subst (asm) select_candidate.simps) (simp add: bindE_Inr_iff, blast)
  show ?case
  proof (cases "i \<in> set (map fst occs)")
    case False
    with r have "selected = sel" by simp
    with oc False show ?thesis by blast
  next
    case True
    with r obtain ov' fr' where d1: "del_at ov sel = Inr ov'" and d2: "del_at fr sel = Inr fr'"
      and r': "(if length ov' = 0 then Inr (False, sel)
                else select_candidate g node i ov' fr') = Inr (True, selected)"
      by (simp add: bindE_Inr_iff) blast
    from r' have ne: "length ov' \<noteq> 0" and rec: "select_candidate g node i ov' fr' = Inr (True, selected)"
      by (auto split: if_splits)
    from True have "\<not> i \<notin> set (map fst occs)" by simp
    from "1.IH" [OF b s oc this d1 d2 ne rec] show ?thesis .
  qed
qed

lemma attach_or_create_occ_distinct:
  assumes "attach_or_create self mapping i j token node found selected k = Inr st'"
    and "occ_distinct (graph self)"
    and "found \<Longrightarrow> \<exists>occs. node_info_of (graph self) (node, selected) = Inr occs \<and> i \<notin> set (map fst occs)"
  shows "occ_distinct (graph (fst st'))"
proof (cases found)
  case False
  with assms(1) have "st' = (new_node self (node, k) i j token, mapping[j := Some (node, k)])"
    by (simp add: attach_or_create_def)
  with assms(2) show ?thesis by (simp add: occ_distinct_new_node)
next
  case True
  with assms(1) obtain self' where a: "attach self (node, selected) i j = Inr self'"
    and s: "st' = (self', mapping[j := Some (node, selected)])"
    by (auto simp: attach_or_create_def bindE_Inr_iff)
  from assms(3) True obtain occs where
    oc: "node_info_of (graph self) (node, selected) = Inr occs" and n: "i \<notin> set (map fst occs)"
    by blast
  from assms(2) a oc n have "occ_distinct (graph self')" by (rule occ_distinct_attach)
  with s show ?thesis by simp
qed

lemma pass2_select_found:
  assumes "pass2_select self i j node = Inr (True, selected)"
  shows "\<exists>occs. node_info_of (graph self) (node, selected) = Inr occs \<and> i \<notin> set (map fst occs)"
proof -
  from assms obtain ov fr where
    "select_candidate (graph self) node i ov fr = Inr (True, selected)"
    unfolding pass2_select_def bindE_Inr_iff by blast
  then show ?thesis by (rule select_candidate_found)
qed

lemma pass2_step_occ_distinct:
  assumes "pass2_step i j st = Inr st'" and "occ_distinct (graph (fst st))"
  shows "occ_distinct (graph (fst st'))"
proof -
  obtain self mapping where st: "st = (self, mapping)" by (cases st)
  obtain token pos weight where t: "sentence self ! i ! j = (token, pos, weight)"
    by (cases "sentence self ! i ! j")
  let ?node = "lower token @ sep @ pos"
  have inv: "occ_distinct (graph self)" using assms(2) st by simp
  show ?thesis
  proof (cases "\<not> (token \<in> stopwords self \<or> is_punct token) \<and> mapping ! j = None")
    case False
    with assms(1) have "st' = (self, mapping)"
      unfolding pass2_step_def st by (auto simp: t split: if_splits)
    with inv show ?thesis by simp
  next
    case True
    with assms(1) have "bindE (pass2_select self i j ?node) (\<lambda>r.
        attach_or_create self mapping i j token ?node (fst r) (snd r)
          (ambiguous_nodes self ?node)) = Inr st'"
      unfolding pass2_step_def st by (simp add: t Let_def)
    then obtain r where sel: "pass2_select self i j ?node = Inr r"
      and a: "attach_or_create self mapping i j token ?node (fst r) (snd r)
          (ambiguous_nodes self ?node) = Inr st'"
      unfolding bindE_Inr_iff by blast
    from a inv show ?thesis
    proof (rule attach_or_create_occ_distinct)
      assume "fst r"
      with sel have "pass2_select self i j ?node = Inr (True, snd r)"
        by (cases r) simp
      then show "\<exists>occs. node_info_of (graph self) (?node, snd r) = Inr occs \<and> i \<notin> set (map fst occs)"
        by (rule pass2_select_found)
    qed
  qed
qed

lemma reuse_or_create_occ_distinct:
  assumes "reuse_or_create non_pos threshold i j t st = Inr st'" and "occ_distinct (graph (fst st))"
  shows "occ_distinct (graph (fst st'))"
proof -
  obtain self mapping where st: "st = (self, mapping)" by (cases st)
  obtain token pos weight where t: "t = (token, pos, weight)" by (cases t)
  let ?node = "lower token @ sep @ pos"
  let ?k = "ambiguous_nodes self ?node"
  have inv: "occ_distinct (graph self)" using assms(2) st by simp
  show ?thesis
  proof (cases "?k = 0")
    case True
    with assms(1) have "st' = (new_node self (?node, 0) i j token, mapping[j := Some (?node, 0)])"
      unfolding reuse_or_create_def st t by (simp add: Let_def)
    with inv show ?thesis by (simp add: occ_distinct_new_node)
  next
    case False
    with assms(1) have "bindE (best_overlap self non_pos i j ?node ?k) (\<lambda>best.
              bindE (node_info_of (graph self) (?node, fst best)) (\<lambda>occs.
                attach_or_create self mapping i j token ?node
                  (i \<notin> set (map fst occs) \<and> snd best > threshold) (fst best) ?k)) = Inr st'"
      unfolding reuse_or_create_def st t by (simp add: Let_def)
    then obtain best occs where
      oc: "node_info_of (graph self) (?node, fst best) = Inr occs"
      and a: "attach_or_create self mapping i j token ?node
                  (i \<notin> set (map fst occs) \<and> snd best > threshold) (fst best) ?k = Inr st'"
      unfolding bindE_Inr_iff by blast
    from a inv show ?thesis
      by (rule attach_or_create_occ_distinct) (use oc in blast)
  qed
qed

lemma pass3_step_occ_distinct:
  "pass3_step i j st = Inr st' \<Longrightarrow> occ_distinct (graph (fst st)) \<Longrightarrow> occ_distinct (graph (fst st'))"
  by (auto simp: pass3_step_def split: prod.splits if_splits
      dest: reuse_or_create_occ_distinct)

lemma pass4_step_occ_distinct:
  "pass4_step i j st = Inr st' \<Longrightarrow> occ_distinct (graph (fst st)) \<Longrightarrow> occ_distinct (graph (fst st'))"
  by (auto simp: pass4_step_def split: prod.splits if_splits
      dest: reuse_or_create_occ_distinct)

lemma add_edges_step_occ_distinct:
  "add_edges_step j st = Inr st' \<Longrightarrow> occ_distinct (graph (fst st)) \<Longrightarrow> occ_distinct (graph (fst st'))"
  by (auto simp: add_edges_step_def add_edge_def occ_distinct_def
      split: prod.splits option.splits if_splits)

lemma process_sentence_occ_distinct:
  assumes "process_sentence i self = Inr self'" and "occ_distinct (graph self)"
  shows "occ_distinct (graph self')"
proof -
  let ?n = "length (sentence self ! i)"
  let ?P = "\<lambda>st :: word_graph \<times> mapping. occ_distinct (graph (fst st))"
  from assms(1) obtain st1 st2 st3 st4 st5 where
    p1: "foldE (pass1_step i) [0..<?n] (self, replicate ?n None) = Inr st1"
    and p2: "foldE (pass2_step i) [0..<?n] st1 = Inr st2"
    and p3: "foldE (pass3_step i) [0..<?n] st2 = Inr st3"
    and p4: "foldE (pass4_step i) [0..<?n] st3 = Inr st4"
    and p5: "foldE add_edges_step [1..<?n] st4 = Inr st5"
    and r: "self' = fst st5"
    by (auto simp: process_sentence_def Let_def bindE_Inr_iff)
  have "?P (self, replicate ?n None)" using assms(2) by simp
  with p1 have "?P st1"
    by (rule foldE_invariant) (rule pass1_step_occ_distinct)
  with p2 have "?P st2"
    by (rule foldE_invariant) (rule pass2_step_occ_distinct)
  with p3 have "?P st3"
    by (rule foldE_invariant) (rule pass3_step_occ_distinct)
  with p4 have "?P st4"
    by (rule foldE_invariant) (rule pass4_step_occ_distinct)
  with p5 have "?P st5"
    by (rule foldE_invariant) (rule add_edges_step_occ_distinct)
  with r show ?thesis by simp
qed

lemma compute_weights_nodes:
  assumes "compute_weights fl self = Inr self'"
  shows "g_nodes (graph self') = g_nodes (graph self)"
proof -
  let ?f = "\<lambda>e g. case e of ((node1, node2), w) \<Rightarrow>
               bindE (get_edge_weight fl g (term_weight self) (length (sentence self)) node1 node2)
                 (\<lambda>edge_weight. Inr (set_edge_weight g node1 node2 edge_weight))"
  from assms obtain g where
    f: "foldE ?f (g_edges (graph self)) (graph self) = Inr g" and r: "self' = self\<lparr>graph := g\<rparr>"
    by (auto simp: compute_weights_def bindE_Inr_iff)
  have "g_nodes g = g_nodes (graph self)"
    by (rule foldE_invariant [OF f, where P = "\<lambda>g. g_nodes g = g_nodes (graph self)"])
       (auto simp: bindE_Inr_iff set_edge_weight_def)
  with r show ?thesis by simp
qed

lemma build_graph_occ_distinct:
  assumes "build_graph fl self = Inr self'" and "occ_distinct (graph self)"
  shows "occ_distinct (graph self')"
proof -
  from assms(1) obtain s1 where
    f: "foldE process_sentence [0..<length (sentence self)] self = Inr s1"
    and c: "compute_weights fl s1 = Inr self'"
    by (auto simp: build_graph_def bindE_Inr_iff)
  from f assms(2) have "occ_distinct (graph s1)"
    by (rule foldE_invariant) (rule process_sentence_occ_distinct)
  with compute_weights_nodes [OF c] show ?thesis by (simp add: occ_distinct_def)
qed

text \<open>
  C7. When \<open>build_graph\<close> returns, no node of the graph records two positions of the
  same sentence: every \<open>append\<close> to an occurrence list is guarded by the test that the
  sentence is not yet in it, and every other write creates a list with one occurrence.
\<close>

theorem same_sentence_exclusion:
  assumes "build_graph fl self = Inr self'" and "g_nodes (graph self) = []"
  shows "\<forall>(n, a) \<in> set (g_nodes (graph self')). distinct (map fst (info a))"
proof -
  from assms(2) have "occ_distinct (graph self)" by (simp add: occ_distinct_def)
  with assms(1) have "occ_distinct (graph self')" by (rule build_graph_occ_distinct)
  then show ?thesis by (simp add: occ_distinct_def)
qed

theorem same_sentence_exclusion_witness:
  "\<not> isl (build_graph double_range aa_graph) \<and>
   occ_distinct (graph (projr (build_graph double_range aa_graph)))"
proof -
  have r: "\<not> isl (build_graph double_range aa_graph)" by code_simp
  then have "build_graph double_range aa_graph = Inr (projr (build_graph double_range aa_graph))"
    by simp
  moreover have "g_nodes (graph aa_graph) = []" by (simp add: aa_graph_def empty_graph_def)
  ultimately have "\<forall>(n, a) \<in> set (g_nodes (graph (projr (build_graph double_range aa_graph)))).
      distinct (map fst (info a))"
    by (rule same_sentence_exclusion)
  with r show ?thesis by (simp add: occ_distinct_def)
qed

subsection \<open>Selection of a candidate node in pass 2\<close>

lemma first_max_unique: "first_max l m \<Longrightarrow> first_max l m' \<Longrightarrow> m = m'"
  unfolding first_max_def by (metis linorder_neqE_nat not_le)

lemma max_index_loop_first_max:
  "first_max pre mi \<Longrightarrow> mv = pre ! mi \<Longrightarrow> z = length pre \<Longrightarrow>
   first_max (pre @ xs) (max_index_loop xs z mv mi)"
proof (induction xs arbitrary: pre z mv mi)
  case Nil
  then show ?case by simp
next
  case (Cons x xs)
  from Cons.prems(1) have mi: "mi < length pre"
    and le: "\<And>j. j < length pre \<Longrightarrow> pre ! j \<le> pre ! mi"
    and lt: "\<And>j. j < mi \<Longrightarrow> pre ! j < pre ! mi"
    by (auto simp: first_max_def)
  show ?case
  proof (cases "x > mv")
    case True
    have "first_max (pre @ [x]) z"
      unfolding first_max_def
    proof (intro conjI allI impI)
      show "z < length (pre @ [x])" using Cons.prems(3) by simp
    next
      fix j assume j: "j < length (pre @ [x])"
      show "(pre @ [x]) ! j \<le> (pre @ [x]) ! z"
      proof (cases "j < length pre")
        case True
        with le [of j] \<open>x > mv\<close> Cons.prems(2,3) show ?thesis by (simp add: nth_append)
      next
        case False
        with j Cons.prems(3) show ?thesis by (simp add: nth_append)
      qed
    next
      fix j assume "j < z"
      with le [of j] True Cons.prems(2,3) show "(pre @ [x]) ! j < (pre @ [x]) ! z"
        by (simp add: nth_append)
    qed
    then have "first_max ((pre @ [x]) @ xs) (max_index_loop xs (Suc z) x z)"
      by (rule Cons.IH) (use Cons.prems(3) in simp_all)
    with True show ?thesis by simp
  next
    case False
    have "first_max (pre @ [x]) mi"
      unfolding first_max_def
    proof (intro conjI allI impI)
      show "mi < length (pre @ [x])" using mi by simp
    next
      fix j assume j: "j < length (pre @ [x])"
      show "(pre @ [x]) ! j \<le> (pre @ [x]) ! mi"
      proof (cases "j < length pre")
        case True
        with le [of j] mi show ?thesis by (simp add: nth_append)
      next
        case nl: False
        with j have "j = length pre" by simp
        with False mi Cons.prems(2) show ?thesis by (simp add: nth_append)
      qed
    next
      fix j assume "j < mi"
      with lt [of j] mi show "(pre @ [x]) ! j < (pre @ [x]) ! mi"
        by (simp add: nth_append)
    qed
    then have "first_max ((pre @ [x]) @ xs) (max_index_loop xs (Suc z) mv mi)"
      by (rule Cons.IH) (use Cons.prems(2,3) mi in \<open>simp_all add: nth_append\<close>)
    with False show ?thesis by simp
  qed
qed

lemma max_index_first_max: "max_index l = Inr m \<Longrightarrow> first_max l m"
proof (cases l)
  case Nil
  assume "max_index l = Inr m"
  with Nil show ?thesis by (simp add: max_index_def)
next
  case (Cons x xs)
  assume m: "max_index l = Inr m"
  have "first_max [x] 0" by (simp add: first_max_def)
  then have "first_max ([x] @ xs) (max_index_loop xs 1 x 0)"
    by (rule max_index_loop_first_max) simp_all
  moreover from m Cons have "m = max_index_loop xs 1 x 0"
    by (cases xs) (simp_all add: max_index_def)
  ultimately show ?thesis using Cons by simp
qed

lemma max_index_nonempty: "l \<noteq> [] \<Longrightarrow> \<exists>m. max_index l = Inr m"
  by (cases l; cases "tl l") (auto simp: max_index_def split: list.splits)

lemma first_max_max_index: "first_max l m \<Longrightarrow> max_index l = Inr m"
proof -
  assume f: "first_max l m"
  then have "l \<noteq> []" by (auto simp: first_max_def)
  then obtain m' where m': "max_index l = Inr m'" using max_index_nonempty by blast
  then have "first_max l m'" by (rule max_index_first_max)
  with f have "m = m'" by (rule first_max_unique)
  with m' show ?thesis by simp
qed

lemma first_max_zero: "first_max l m \<Longrightarrow> (l ! m = 0 \<longleftrightarrow> (\<forall>x \<in> set l. x = 0))"
  unfolding first_max_def by (metis in_set_conv_nth le_zero_eq nth_mem)

lemma select_candidate_first:
  assumes "max_index ov = Inr best"
    and "(if ov ! best = 0 then max_index fr else Inr best) = Inr selected"
    and "node_info_of g (node, selected) = Inr occs" and "i \<notin> set (map fst occs)"
  shows "select_candidate g node i ov fr = Inr (True, selected)"
  using assms by (subst select_candidate.simps) simp

lemma select_candidate_bound:
  "select_candidate g node i ov fr = Inr (found, selected) \<Longrightarrow> length fr = length ov \<Longrightarrow>
   selected < length ov"
proof (induction g node i ov fr rule: select_candidate.induct)
  case (1 g node i ov fr)
  from "1.prems"(1) obtain best sel occs where
    b: "max_index ov = Inr best"
    and s: "(if ov ! best = 0 then max_index fr else Inr best) = Inr sel"
    and oc: "node_info_of g (node, sel) = Inr occs"
    and r: "(if i \<notin> set (map fst occs) then Inr (True, sel)
             else bindE (del_at ov sel) (\<lambda>ov'. bindE (del_at fr sel) (\<lambda>fr'.
                    if length ov' = 0 then Inr (False, sel)
                    else select_candidate g node i ov' fr'))) = Inr (found, selected)"
    by (subst (asm) select_candidate.simps) (simp add: bindE_Inr_iff, blast)
  from b have "best < length ov" using max_index_first_max by (auto simp: first_max_def)
  moreover have "max_index fr = Inr sel \<Longrightarrow> sel < length fr"
    using max_index_first_max by (auto simp: first_max_def)
  ultimately have sel: "sel < length ov"
    using s "1.prems"(2) by (auto split: if_splits)
  show ?case
  proof (cases "i \<in> set (map fst occs)")
    case False
    with r sel show ?thesis by simp
  next
    case True
    with r obtain ov' fr' where d1: "del_at ov sel = Inr ov'" and d2: "del_at fr sel = Inr fr'"
      and r': "(if length ov' = 0 then Inr (False, sel)
                else select_candidate g node i ov' fr') = Inr (found, selected)"
      by (simp add: bindE_Inr_iff) blast
    from d1 d2 "1.prems"(2) have len: "length fr' = length ov'" "length ov' < length ov"
      by (auto simp: del_at_def split: if_splits)
    show ?thesis
    proof (cases "length ov' = 0")
      case True
      with r' sel show ?thesis by simp
    next
      case False
      with r' have rec: "select_candidate g node i ov' fr' = Inr (found, selected)" by simp
      from True have "\<not> i \<notin> set (map fst occs)" by simp
      from "1.IH" [OF b s oc this d1 d2 False rec len(1)] len(2) show ?thesis by simp
    qed
  qed
qed

lemma pass2_scores_acc:
  assumes "foldE (\<lambda>l (ambinode_overlap, ambinode_frequency).
              bindE (candidate_overlap self node False prev_node next_node l) (\<lambda>val.
              bindE (node_info_of (graph self) (node, l)) (\<lambda>occs.
                Inr (ambinode_overlap @ [val], ambinode_frequency @ [length occs]))))
             ls (ov0, fr0) = Inr (ov, fr)"
  shows "\<exists>vs fs. ov = ov0 @ vs \<and> fr = fr0 @ fs \<and> length vs = length ls \<and> length fs = length ls \<and>
           (\<forall>n < length ls. candidate_overlap self node False prev_node next_node (ls ! n) = Inr (vs ! n) \<and>
              (\<exists>occs. node_info_of (graph self) (node, ls ! n) = Inr occs \<and> fs ! n = length occs))"
  using assms
proof (induction ls arbitrary: ov0 fr0)
  case Nil
  then show ?case by simp
next
  case (Cons a ls)
  from Cons.prems obtain val occs where
    v: "candidate_overlap self node False prev_node next_node a = Inr val"
    and oc: "node_info_of (graph self) (node, a) = Inr occs"
    and rest: "foldE (\<lambda>l (ambinode_overlap, ambinode_frequency).
              bindE (candidate_overlap self node False prev_node next_node l) (\<lambda>val.
              bindE (node_info_of (graph self) (node, l)) (\<lambda>occs.
                Inr (ambinode_overlap @ [val], ambinode_frequency @ [length occs]))))
             ls (ov0 @ [val], fr0 @ [length occs]) = Inr (ov, fr)"
    by (auto simp: bindE_Inr_iff)
  from Cons.IH [OF rest] obtain vs fs where
    e: "ov = (ov0 @ [val]) @ vs" "fr = (fr0 @ [length occs]) @ fs"
      "length vs = length ls" "length fs = length ls"
    and n: "\<forall>n < length ls. candidate_overlap self node False prev_node next_node (ls ! n) = Inr (vs ! n) \<and>
              (\<exists>occs. node_info_of (graph self) (node, ls ! n) = Inr occs \<and> fs ! n = length occs)"
    by blast
  have step: "\<forall>n < length (a # ls).
      candidate_overlap self node False prev_node next_node ((a # ls) ! n) = Inr ((val # vs) ! n) \<and>
      (\<exists>occs'. node_info_of (graph self) (node, (a # ls) ! n) = Inr occs' \<and>
         (length occs # fs) ! n = length occs')"
  proof (intro allI impI)
    fix n assume "n < length (a # ls)"
    then show "candidate_overlap self node False prev_node next_node ((a # ls) ! n) = Inr ((val # vs) ! n) \<and>
      (\<exists>occs'. node_info_of (graph self) (node, (a # ls) ! n) = Inr occs' \<and>
         (length occs # fs) ! n = length occs')"
      using v oc n by (cases n) auto
  qed
  show ?case
    by (rule exI [of _ "val # vs"], rule exI [of _ "length occs # fs"]) (use e step in simp)
qed

lemma pass2_scores_nth:
  assumes "pass2_scores self node prev_node next_node k = Inr (ov, fr)"
  shows "length ov = k \<and> length fr = k \<and>
         (\<forall>l < k. candidate_overlap self node False prev_node next_node l = Inr (ov ! l) \<and>
            (\<exists>occs. node_info_of (graph self) (node, l) = Inr occs \<and> fr ! l = length occs))"
  using pass2_scores_acc [of self node prev_node next_node "[0..<k]" "[]" "[]" ov fr] assms
  by (auto simp: pass2_scores_def)

lemma attach_info:
  assumes "attach self n i j = Inr self'" and "node_info_of (graph self) n = Inr occs"
  shows "node_info_of (graph self') n = Inr (occs @ [(i, j)])"
proof -
  from assms(2) obtain a where a: "map_of (g_nodes (graph self)) n = Some a" and o: "occs = info a"
    by (auto simp: node_info_of_def split: option.splits)
  from assms(1) a have "graph self' =
      (graph self)\<lparr>g_nodes := AList.update n (a\<lparr>info := info a @ [(i, j)]\<rparr>) (g_nodes (graph self))\<rparr>"
    by (auto simp: attach_def append_info_def bindE_Inr_iff)
  then show ?thesis by (simp add: node_info_of_def update_conv' o)
qed

lemma new_node_info: "node_info_of (graph (new_node self n i j token)) n = Inr [(i, j)]"
  by (simp add: new_node_def add_node_def node_info_of_def update_conv')

text \<open>
  What pass 2 does. The context overlap and the occurrence count of
  every existing variant are collected. The variant tried first is the first one with
  the highest overlap, or, when that overlap is 0, the first one with the highest
  occurrence count (the occurrence count does not break ties between positive overlaps).
  When it has no occurrence from the current sentence, the occurrence is attached to it.
  In every case the variant the occurrence is attached to is an existing one without an
  occurrence from the current sentence, and when the search ends without such a variant
  a new variant with the next free identifier is created.
\<close>

lemma pass2_step_selection:
  assumes "pass2_step i j (self, mapping) = Inr (self', mapping')"
    and "sentence self ! i ! j = (token, pos, weight)"
    and "token \<notin> stopwords self" and "\<not> is_punct token" and "mapping ! j = None"
    and "node = lower token @ sep @ pos" and "k = ambiguous_nodes self node"
  shows "\<exists>prev_node next_node ov fr found selected.
      neighbour_nodes self i j = Inr (prev_node, next_node) \<and>
      pass2_scores self node prev_node next_node k = Inr (ov, fr) \<and>
      length ov = k \<and> length fr = k \<and>
      (\<forall>l < k. candidate_overlap self node False prev_node next_node l = Inr (ov ! l) \<and>
         (\<exists>occs. node_info_of (graph self) (node, l) = Inr occs \<and> fr ! l = length occs)) \<and>
      select_candidate (graph self) node i ov fr = Inr (found, selected) \<and>
      (found \<longrightarrow> selected < k \<and> mapping' = mapping[j := Some (node, selected)] \<and>
         (\<exists>occs. node_info_of (graph self) (node, selected) = Inr occs \<and> i \<notin> set (map fst occs) \<and>
            node_info_of (graph self') (node, selected) = Inr (occs @ [(i, j)]))) \<and>
      (\<not> found \<longrightarrow> mapping' = mapping[j := Some (node, k)] \<and>
         node_info_of (graph self') (node, k) = Inr [(i, j)]) \<and>
      (\<forall>best occs. first_max ov best \<and> 0 < ov ! best \<and>
         node_info_of (graph self) (node, best) = Inr occs \<and> i \<notin> set (map fst occs) \<longrightarrow>
         found \<and> selected = best) \<and>
      (\<forall>best occs. (\<forall>x \<in> set ov. x = 0) \<and> first_max fr best \<and>
         node_info_of (graph self) (node, best) = Inr occs \<and> i \<notin> set (map fst occs) \<longrightarrow>
         found \<and> selected = best)"
proof -
  from assms(1-5) have "bindE (pass2_select self i j node) (\<lambda>r.
        attach_or_create self mapping i j token node (fst r) (snd r) k) = Inr (self', mapping')"
    unfolding pass2_step_def assms(6,7) by (simp add: Let_def)
  then obtain r where sel: "pass2_select self i j node = Inr r"
    and a: "attach_or_create self mapping i j token node (fst r) (snd r) k = Inr (self', mapping')"
    unfolding bindE_Inr_iff by blast
  obtain found selected where r: "r = (found, selected)" by (cases r)
  from sel obtain nb scores where nb: "neighbour_nodes self i j = Inr nb"
    and sc: "pass2_scores self node (fst nb) (snd nb) k = Inr scores"
    and s: "select_candidate (graph self) node i (fst scores) (snd scores) = Inr (found, selected)"
    unfolding pass2_select_def bindE_Inr_iff r assms(7) by blast
  obtain prev_node next_node where nbp: "nb = (prev_node, next_node)" by (cases nb)
  obtain ov fr where scp: "scores = (ov, fr)" by (cases scores)
  from sc have sc': "pass2_scores self node prev_node next_node k = Inr (ov, fr)"
    by (simp add: nbp scp)
  note props = pass2_scores_nth [OF sc']
  from s have s': "select_candidate (graph self) node i ov fr = Inr (found, selected)"
    by (simp add: scp)
  have f: "found \<longrightarrow> selected < k \<and> mapping' = mapping[j := Some (node, selected)] \<and>
         (\<exists>occs. node_info_of (graph self) (node, selected) = Inr occs \<and> i \<notin> set (map fst occs) \<and>
            node_info_of (graph self') (node, selected) = Inr (occs @ [(i, j)]))"
  proof
    assume found
    with s' have st: "select_candidate (graph self) node i ov fr = Inr (True, selected)" by simp
    then obtain occs where oc: "node_info_of (graph self) (node, selected) = Inr occs"
      and ni: "i \<notin> set (map fst occs)"
      using select_candidate_found by blast
    from st props have b: "selected < k"
      using select_candidate_bound [of "graph self" node i ov fr True selected] by simp
    from a \<open>found\<close> obtain s1 where at: "attach self (node, selected) i j = Inr s1"
      and e: "(self', mapping') = (s1, mapping[j := Some (node, selected)])"
      by (auto simp: attach_or_create_def r bindE_Inr_iff)
    from at oc have "node_info_of (graph s1) (node, selected) = Inr (occs @ [(i, j)])"
      by (rule attach_info)
    with e oc ni b show "selected < k \<and> mapping' = mapping[j := Some (node, selected)] \<and>
         (\<exists>occs. node_info_of (graph self) (node, selected) = Inr occs \<and> i \<notin> set (map fst occs) \<and>
            node_info_of (graph self') (node, selected) = Inr (occs @ [(i, j)]))"
      by auto
  qed
  have nf: "\<not> found \<longrightarrow> mapping' = mapping[j := Some (node, k)] \<and>
         node_info_of (graph self') (node, k) = Inr [(i, j)]"
    using a by (auto simp: attach_or_create_def r new_node_info)
  from s' obtain b0 where b0: "max_index ov = Inr b0"
    by (subst (asm) select_candidate.simps) (auto simp: bindE_Inr_iff)
  then have fb0: "first_max ov b0" by (rule max_index_first_max)
  have pos: "\<forall>best occs. first_max ov best \<and> 0 < ov ! best \<and>
         node_info_of (graph self) (node, best) = Inr occs \<and> i \<notin> set (map fst occs) \<longrightarrow>
         found \<and> selected = best"
  proof (intro allI impI)
    fix best occs
    assume h: "first_max ov best \<and> 0 < ov ! best \<and>
         node_info_of (graph self) (node, best) = Inr occs \<and> i \<notin> set (map fst occs)"
    then have "max_index ov = Inr best" by (simp add: first_max_max_index)
    moreover from h have "(if ov ! best = 0 then max_index fr else Inr best) = Inr best" by simp
    ultimately have "select_candidate (graph self) node i ov fr = Inr (True, best)"
      using h by (intro select_candidate_first [where occs = occs and best = best]) simp_all
    with s' show "found \<and> selected = best" by simp
  qed
  have zero: "\<forall>best occs. (\<forall>x \<in> set ov. x = 0) \<and> first_max fr best \<and>
         node_info_of (graph self) (node, best) = Inr occs \<and> i \<notin> set (map fst occs) \<longrightarrow>
         found \<and> selected = best"
  proof (intro allI impI)
    fix best occs
    assume h: "(\<forall>x \<in> set ov. x = 0) \<and> first_max fr best \<and>
         node_info_of (graph self) (node, best) = Inr occs \<and> i \<notin> set (map fst occs)"
    with fb0 have z: "ov ! b0 = 0" by (simp add: first_max_zero)
    from h have "max_index fr = Inr best" by (simp add: first_max_max_index)
    with z have "(if ov ! b0 = 0 then max_index fr else Inr b0) = Inr best" by simp
    with b0 have "select_candidate (graph self) node i ov fr = Inr (True, best)"
      using h by (intro select_candidate_first [where occs = occs and best = b0]) simp_all
    with s' show "found \<and> selected = best" by simp
  qed
  from nb nbp have nb': "neighbour_nodes self i j = Inr (prev_node, next_node)" by simp
  from props have p1: "length ov = k" and p2: "length fr = k"
    and p3: "\<forall>l < k. candidate_overlap self node False prev_node next_node l = Inr (ov ! l) \<and>
         (\<exists>occs. node_info_of (graph self) (node, l) = Inr occs \<and> fr ! l = length occs)"
    by blast+
  show ?thesis
    apply (rule exI [of _ prev_node])
    apply (rule exI [of _ next_node])
    apply (rule exI [of _ ov])
    apply (rule exI [of _ fr])
    apply (rule exI [of _ found])
    apply (rule exI [of _ selected])
    apply (intro conjI)
             apply (rule nb')
            apply (rule sc')
           apply (rule p1)
          apply (rule p2)
         apply (rule p3)
        apply (rule s')
       apply (rule f)
      apply (rule nf)
     apply (rule pos)
    apply (rule zero)
    done
qed

lemma tie_state_reached:
  "map_sum id (\<lambda>st. (graph (fst st), snd st))
     (bindE (foldE process_sentence [0..<2] tie_graph) (\<lambda>self.
        foldE (pass1_step 2) [0..<5] (self, replicate 5 None))) =
   Inr (tie_state_graph, tie_mapping)"
  by code_simp

lemma pass2_step_selection_example:
  "\<not> isl (pass2_step 2 2 (tie_state, tie_mapping)) \<and>
   (\<exists>ov fr found selected.
      select_candidate (graph tie_state) ''x/-/NN'' 2 ov fr = Inr (found, selected) \<and>
      length ov = 2 \<and> length fr = 2)"
proof -
  let ?r = "pass2_step 2 2 (tie_state, tie_mapping)"
  have ok: "\<not> isl ?r" by code_simp
  then have r: "?r = Inr (fst (projr ?r), snd (projr ?r))" by simp
  have t: "sentence tie_state ! 2 ! 2 = (''x'', ''NN'', ''1'')"
    by (simp add: tie_state_def tie_graph_def tie_sentences_def)
  have s: "''x'' \<notin> stopwords tie_state" by (simp add: tie_state_def tie_graph_def)
  have p: "\<not> is_punct ''x''" by (simp add: is_punct_def word_char_def)
  have m: "tie_mapping ! 2 = None" by (simp add: tie_mapping_def)
  have n: "''x/-/NN'' = lower ''x'' @ sep @ ''NN''"
    by (simp add: lower_def lower_char_def sep_def)
  have k: "2 = ambiguous_nodes tie_state ''x/-/NN''" by code_simp
  from pass2_step_selection [OF r t s p m n k] ok show ?thesis by blast
qed

text \<open>
  C4 does not hold of the code, which also departs from its own comment (the occurrence
  count is to decide when the overlap cannot discriminate). Two inputs show it.
  In the third of the sentences \<open>tie_sentences\<close> both nodes of \<open>x\<close> have the overlap 1
  and the second one has two occurrences against one: the first node is selected, and
  the occurrence (2, 2) ends in its occurrence list. At the second \<open>x\<close> of the second of
  the sentences \<open>slip_sentences\<close> the overlaps are 4 and 0: the first node, which holds
  the first \<open>x\<close> of that sentence, is rejected and its entry deleted from both lists;
  the index 0 then found in the shortened lists is again read as the first node, so that
  the second node, which has no occurrence of that sentence, is never tried: the search
  ends without a node, and a third node of \<open>x\<close> is created.
\<close>

theorem pass2_selection_diverges:
  "pass2_scores tie_state ''x/-/NN'' ''p/-/NN'' ''s/-/NN'' 2 = Inr ([1, 1], [1, 2]) \<and>
   select_candidate (graph tie_state) ''x/-/NN'' 2 [1, 1] [1, 2] = Inr (True, 0) \<and>
   map_sum id (g_nodes \<circ> graph) (build_graph double_range tie_graph) =
   Inr [((''-start-/-/-start-'', 0), \<lparr>info = [(0, 0), (1, 0), (2, 0)], label = ''-start-''\<rparr>),
        ((''p/-/NN'', 0), \<lparr>info = [(0, 1), (2, 1)], label = ''p''\<rparr>),
        ((''x/-/NN'', 0), \<lparr>info = [(0, 2), (2, 2)], label = ''x''\<rparr>),
        ((''q/-/NN'', 0), \<lparr>info = [(0, 3)], label = ''q''\<rparr>),
        ((''r/-/NN'', 0), \<lparr>info = [(0, 4), (1, 1)], label = ''r''\<rparr>),
        ((''x/-/NN'', 1), \<lparr>info = [(0, 5), (1, 2)], label = ''x''\<rparr>),
        ((''s/-/NN'', 0), \<lparr>info = [(0, 6), (2, 3)], label = ''s''\<rparr>),
        ((''-end-/-/-end-'', 0), \<lparr>info = [(0, 7), (1, 4), (2, 4)], label = ''-end-''\<rparr>),
        ((''t/-/NN'', 0), \<lparr>info = [(1, 3)], label = ''t''\<rparr>)] \<and>
   bindE slip_state (\<lambda>st. pass2_scores (fst st) ''x/-/NN'' ''p/-/NN'' ''q/-/NN'' 2) =
   Inr ([4, 0], [2, 1]) \<and>
   bindE slip_state (\<lambda>st. node_info_of (graph (fst st)) (''x/-/NN'', 0)) = Inr [(0, 2), (1, 2)] \<and>
   bindE slip_state (\<lambda>st. node_info_of (graph (fst st)) (''x/-/NN'', 1)) = Inr [(0, 5)] \<and>
   bindE slip_state (\<lambda>st. select_candidate (graph (fst st)) ''x/-/NN'' 1 [4, 0] [2, 1]) =
   Inr (False, 0) \<and>
   map_sum id (g_nodes \<circ> graph) (build_graph double_range slip_graph) =
   Inr [((''-start-/-/-start-'', 0), \<lparr>info = [(0, 0), (1, 0)], label = ''-start-''\<rparr>),
        ((''p/-/NN'', 0), \<lparr>info = [(0, 1), (1, 1)], label = ''p''\<rparr>),
        ((''x/-/NN'', 0), \<lparr>info = [(0, 2), (1, 2)], label = ''x''\<rparr>),
        ((''q/-/NN'', 0), \<lparr>info = [(0, 3), (1, 3)], label = ''q''\<rparr>),
        ((''r/-/NN'', 0), \<lparr>info = [(0, 4)], label = ''r''\<rparr>),
        ((''x/-/NN'', 1), \<lparr>info = [(0, 5)], label = ''x''\<rparr>),
        ((''s/-/NN'', 0), \<lparr>info = [(0, 6)], label = ''s''\<rparr>),
        ((''-end-/-/-end-'', 0), \<lparr>info = [(0, 7), (1, 7)], label = ''-end-''\<rparr>),
        ((''p/-/NN'', 1), \<lparr>info = [(1, 4)], label = ''p''\<rparr>),
        ((''q/-/NN'', 1), \<lparr>info = [(1, 6)], label = ''q''\<rparr>),
        ((''x/-/NN'', 2), \<lparr>info = [(1, 5)], label = ''x''\<rparr>)]"
proof (intro conjI)
  show "pass2_scores tie_state ''x/-/NN'' ''p/-/NN'' ''s/-/NN'' 2 = Inr ([1, 1], [1, 2])"
    by code_simp
  show "select_candidate (graph tie_state) ''x/-/NN'' 2 [1, 1] [1, 2] = Inr (True, 0)"
    by code_simp
  show "map_sum id (g_nodes \<circ> graph) (build_graph double_range tie_graph) =
   Inr [((''-start-/-/-start-'', 0), \<lparr>info = [(0, 0), (1, 0), (2, 0)], label = ''-start-''\<rparr>),
        ((''p/-/NN'', 0), \<lparr>info = [(0, 1), (2, 1)], label = ''p''\<rparr>),
        ((''x/-/NN'', 0), \<lparr>info = [(0, 2), (2, 2)], label = ''x''\<rparr>),
        ((''q/-/NN'', 0), \<lparr>info = [(0, 3)], label = ''q''\<rparr>),
        ((''r/-/NN'', 0), \<lparr>info = [(0, 4), (1, 1)], label = ''r''\<rparr>),
        ((''x/-/NN'', 1), \<lparr>info = [(0, 5), (1, 2)], label = ''x''\<rparr>),
        ((''s/-/NN'', 0), \<lparr>info = [(0, 6), (2, 3)], label = ''s''\<rparr>),
        ((''-end-/-/-end-'', 0), \<lparr>info = [(0, 7), (1, 4), (2, 4)], label = ''-end-''\<rparr>),
        ((''t/-/NN'', 0), \<lparr>info = [(1, 3)], label = ''t''\<rparr>)]"
    by code_simp
  show "bindE slip_state (\<lambda>st. pass2_scores (fst st) ''x/-/NN'' ''p/-/NN'' ''q/-/NN'' 2) =
   Inr ([4, 0], [2, 1])"
    by code_simp
  show "bindE slip_state (\<lambda>st. node_info_of (graph (fst st)) (''x/-/NN'', 0)) =
   Inr [(0, 2), (1, 2)]"
    by code_simp
  show "bindE slip_state (\<lambda>st. node_info_of (graph (fst st)) (''x/-/NN'', 1)) = Inr [(0, 5)]"
    by code_simp
  show "bindE slip_state (\<lambda>st. select_candidate (graph (fst st)) ''x/-/NN'' 1 [4, 0] [2, 1]) =
   Inr (False, 0)"
    by code_simp
  show "map_sum id (g_nodes \<circ> graph) (build_graph double_range slip_graph) =
   Inr [((''-start-/-/-start-'', 0), \<lparr>info = [(0, 0), (1, 0)], label = ''-start-''\<rparr>),
        ((''p/-/NN'', 0), \<lparr>info = [(0, 1), (1, 1)], label = ''p''\<rparr>),
        ((''x/-/NN'', 0), \<lparr>info = [(0, 2), (1, 2)], label = ''x''\<rparr>),
        ((''q/-/NN'', 0), \<lparr>info = [(0, 3), (1, 3)], label = ''q''\<rparr>),
        ((''r/-/NN'', 0), \<lparr>info = [(0, 4)], label = ''r''\<rparr>),
        ((''x/-/NN'', 1), \<lparr>info = [(0, 5)], label = ''x''\<rparr>),
        ((''s/-/NN'', 0), \<lparr>info = [(0, 6)], label = ''s''\<rparr>),
        ((''-end-/-/-end-'', 0), \<lparr>info = [(0, 7), (1, 7)], label = ''-end-''\<rparr>),
        ((''p/-/NN'', 1), \<lparr>info = [(1, 4)], label = ''p''\<rparr>),
        ((''q/-/NN'', 1), \<lparr>info = [(1, 6)], label = ''q''\<rparr>),
        ((''x/-/NN'', 2), \<lparr>info = [(1, 5)], label = ''x''\<rparr>)]"
    by code_simp
qed

subsection \<open>Edge weights\<close>

lemma fle_zero_cases:
  "fle (Fin 0) a \<Longrightarrow> a = PInf \<or> (\<exists>x \<ge> 0. a = Fin x)"
  by (cases a) (auto simp: fle_def flt_def feq_def)

lemma rounding_zero: "monotone_rounding fl \<Longrightarrow> fl 0 = Fin 0"
  by (simp add: monotone_rounding_def)

lemma rounding_one: "monotone_rounding fl \<Longrightarrow> flt (Fin 0) (fl 1)"
  by (simp add: monotone_rounding_def)

lemma rounding_fixed: "monotone_rounding fl \<Longrightarrow> fl x = Fin y \<Longrightarrow> fl y = Fin y"
  unfolding monotone_rounding_def by blast

lemma rounding_mono: "monotone_rounding fl \<Longrightarrow> 0 \<le> x \<Longrightarrow> x \<le> y \<Longrightarrow> fle (fl x) (fl y)"
  unfolding monotone_rounding_def by blast

lemma fl_nonneg:
  assumes "monotone_rounding fl" and "0 \<le> x"
  shows "nonneg_float fl (fl x)"
proof -
  from assms have "fle (fl 0) (fl x)" by (intro rounding_mono) simp_all
  with assms(1) have "fle (Fin 0) (fl x)" by (simp add: rounding_zero)
  then have "fl x = PInf \<or> (\<exists>z \<ge> 0. fl x = Fin z)" by (rule fle_zero_cases)
  moreover have "fl z = Fin z" if "fl x = Fin z" for z
    using assms(1) that by (rule rounding_fixed)
  ultimately show ?thesis unfolding nonneg_float_def by auto
qed

lemma fl_above:
  assumes "monotone_rounding fl" and "0 < x" and "fl x = Fin x" and "x \<le> y"
  shows "flt (Fin 0) (fl y)"
proof -
  from assms have "fle (fl x) (fl y)" by (intro rounding_mono) simp_all
  with assms(3) have "fle (Fin x) (fl y)" by simp
  with assms(2) show ?thesis
    by (cases "fl y") (auto simp: fle_def flt_def feq_def)
qed

lemma fadd_nonneg:
  assumes "monotone_rounding fl" and "nonneg_float fl a" and "nonneg_float fl b"
  shows "nonneg_float fl (fadd fl a b)"
proof (cases "a = PInf \<or> b = PInf")
  case True
  with assms(2,3) show ?thesis by (auto simp: nonneg_float_def fadd_def)
next
  case False
  with assms(2,3) obtain x y where "a = Fin x" "b = Fin y" "0 \<le> x" "0 \<le> y"
    by (auto simp: nonneg_float_def)
  then show ?thesis using fl_nonneg [OF assms(1), of "x + y"] by (simp add: fadd_def)
qed

lemma fadd_pos:
  assumes "monotone_rounding fl" and "nonneg_float fl a" and "nonneg_float fl b"
    and "flt (Fin 0) a \<or> flt (Fin 0) b"
  shows "flt (Fin 0) (fadd fl a b)"
proof (cases "a = PInf \<or> b = PInf")
  case True
  with assms(2,3) show ?thesis by (auto simp: nonneg_float_def fadd_def flt_def)
next
  case False
  with assms(2,3) obtain x y where xy: "a = Fin x" "b = Fin y" "0 \<le> x" "0 \<le> y"
    "fl x = Fin x" "fl y = Fin y"
    by (auto simp: nonneg_float_def)
  from assms(4) xy have "0 < x \<or> 0 < y" by (simp add: flt_def)
  then have "flt (Fin 0) (fl (x + y))"
  proof
    assume "0 < x"
    then show ?thesis using xy by (intro fl_above [OF assms(1), of x]) simp_all
  next
    assume "0 < y"
    then show ?thesis using xy by (intro fl_above [OF assms(1), of y]) simp_all
  qed
  with xy show ?thesis by (simp add: fadd_def)
qed

lemma foldl_fadd_pos:
  assumes "monotone_rounding fl"
  shows "nonneg_float fl acc \<Longrightarrow> \<forall>d \<in> set ds. nonneg_float fl d \<Longrightarrow>
    nonneg_float fl (foldl (fadd fl) acc ds) \<and>
    (flt (Fin 0) acc \<or> (\<exists>d \<in> set ds. flt (Fin 0) d) \<longrightarrow> flt (Fin 0) (foldl (fadd fl) acc ds))"
proof (induction ds arbitrary: acc)
  case Nil
  then show ?case by simp
next
  case (Cons d ds)
  have d: "nonneg_float fl d" using Cons.prems(2) by simp
  have n: "nonneg_float fl (fadd fl acc d)" using assms Cons.prems(1) d by (rule fadd_nonneg)
  have rest: "\<forall>d \<in> set ds. nonneg_float fl d" using Cons.prems(2) by simp
  note ih = Cons.IH [OF n rest]
  have "flt (Fin 0) (fadd fl acc d)" if "flt (Fin 0) acc \<or> flt (Fin 0) d"
    using assms Cons.prems(1) d that by (rule fadd_pos)
  with ih show ?case by auto
qed

lemma all_diff_pos_ge1: "x \<in> set (all_diff_pos a b) \<Longrightarrow> 1 \<le> x"
  by (auto simp: all_diff_pos_def split: if_splits)

lemma all_diff_pos_mem:
  "p \<in> set a \<Longrightarrow> q \<in> set b \<Longrightarrow> p < q \<Longrightarrow> real q - real p \<in> set (all_diff_pos a b)"
  by (force simp: all_diff_pos_def)

lemma sentence_diff_total:
  assumes "monotone_rounding fl"
  shows "\<exists>d. sentence_diff fl i1 i2 s = Inr d \<and> nonneg_float fl d"
proof -
  let ?a = "all_diff_pos (positions_in i1 s) (positions_in i2 s)"
  show ?thesis
  proof (cases "?a = []")
    case True
    have "nonneg_float fl (Fin 0)"
      using assms by (simp add: nonneg_float_def rounding_zero)
    with True show ?thesis by (simp add: sentence_diff_def)
  next
    case False
    then have "min_list ?a \<in> set ?a" by (simp add: min_list_Min)
    then have m: "1 \<le> min_list ?a" by (rule all_diff_pos_ge1)
    then have "nonneg_float fl (fl (1 / min_list ?a))" by (intro fl_nonneg [OF assms]) simp
    with False m show ?thesis by (simp add: sentence_diff_def fdiv_def fquot_def Let_def)
  qed
qed

lemma sentence_diff_adjacent:
  assumes "(s, p) \<in> set i1" and "(s, Suc p) \<in> set i2"
  shows "sentence_diff fl i1 i2 s = Inr (fl 1)"
proof -
  let ?a = "all_diff_pos (positions_in i1 s) (positions_in i2 s)"
  have "p \<in> set (positions_in i1 s)" "Suc p \<in> set (positions_in i2 s)"
    using assms by (force simp: positions_in_def)+
  then have "real (Suc p) - real p \<in> set ?a" by (rule all_diff_pos_mem) simp
  then have one: "1 \<in> set ?a" by simp
  then have ne: "?a \<noteq> []" by auto
  have "Min (set ?a) = 1"
    using one by (intro Min_eqI) (auto dest: all_diff_pos_ge1)
  with ne have "min_list ?a = 1" by (simp add: min_list_Min)
  with ne show ?thesis by (simp add: sentence_diff_def fdiv_def fquot_def Let_def)
qed

lemma diff_list_acc:
  assumes "monotone_rounding fl"
  shows "\<exists>ds. foldE (\<lambda>s diff. bindE (sentence_diff fl i1 i2 s) (\<lambda>d. Inr (diff @ [d]))) xs acc =
           Inr (acc @ ds) \<and> length ds = length xs \<and>
           (\<forall>k < length xs. sentence_diff fl i1 i2 (xs ! k) = Inr (ds ! k) \<and> nonneg_float fl (ds ! k))"
proof (induction xs arbitrary: acc)
  case Nil
  then show ?case by simp
next
  case (Cons x xs)
  from sentence_diff_total [OF assms, of i1 i2 x] obtain d where
    d: "sentence_diff fl i1 i2 x = Inr d" "nonneg_float fl d" by blast
  from Cons.IH [of "acc @ [d]"] obtain ds where
    ds: "foldE (\<lambda>s diff. bindE (sentence_diff fl i1 i2 s) (\<lambda>d. Inr (diff @ [d]))) xs (acc @ [d]) =
           Inr ((acc @ [d]) @ ds)" "length ds = length xs"
      "\<forall>k < length xs. sentence_diff fl i1 i2 (xs ! k) = Inr (ds ! k) \<and> nonneg_float fl (ds ! k)"
    by blast
  have "\<forall>k < length (x # xs). sentence_diff fl i1 i2 ((x # xs) ! k) = Inr ((d # ds) ! k) \<and>
      nonneg_float fl ((d # ds) ! k)"
    using d ds(3) by (auto simp: nth_Cons split: nat.splits)
  with d ds(1,2) show ?case
    by (intro exI [of _ "d # ds"]) simp
qed

lemma diff_list_total:
  assumes "monotone_rounding fl"
  shows "\<exists>ds. diff_list fl i1 i2 len = Inr ds \<and> length ds = len \<and>
           (\<forall>s < len. sentence_diff fl i1 i2 s = Inr (ds ! s) \<and> nonneg_float fl (ds ! s))"
  using diff_list_acc [OF assms, of i1 i2 "[0..<len]" "[]"] by (auto simp: diff_list_def)

lemma diff_list_adjacent:
  assumes "monotone_rounding fl" and "(s, p) \<in> set i1" and "(s, Suc p) \<in> set i2" and "s < len"
  shows "\<exists>ds. diff_list fl i1 i2 len = Inr ds \<and> flt (Fin 0) (fsum fl ds)"
proof -
  from diff_list_total [OF assms(1), of i1 i2 len] obtain ds where
    ds: "diff_list fl i1 i2 len = Inr ds" "length ds = len"
      "\<forall>s < len. sentence_diff fl i1 i2 s = Inr (ds ! s) \<and> nonneg_float fl (ds ! s)"
    by blast
  have nn: "\<forall>d \<in> set ds. nonneg_float fl d"
    using ds(2,3) by (auto simp: in_set_conv_nth)
  have "ds ! s = fl 1"
    using ds(3) assms(4) sentence_diff_adjacent [OF assms(2,3), of fl] by auto
  moreover have "flt (Fin 0) (fl 1)" using assms(1) by (rule rounding_one)
  moreover have "ds ! s \<in> set ds" using assms(4) ds(2) by simp
  ultimately have "\<exists>d \<in> set ds. flt (Fin 0) d" by auto
  moreover have "nonneg_float fl (Fin 0)"
    using assms(1) by (simp add: nonneg_float_def rounding_zero)
  ultimately have "flt (Fin 0) (fsum fl ds)"
    using foldl_fadd_pos [OF assms(1), of "Fin 0" ds] nn by (simp add: fsum_def)
  with ds(1) show ?thesis by blast
qed

lemma monotone_double_range: "monotone_rounding double_range"
proof -
  have big: "(1::real) < 2 ^ 1024" by (rule one_less_power) simp_all
  have small: "(1::real) < 2 ^ 1075" by (rule one_less_power) simp_all
  have idem: "double_range y = Fin y" if "double_range x = Fin y" for x y
    using that by (auto simp: double_range_def inf_of_def split: if_splits)
  have mono: "fle (double_range x) (double_range y)" if "0 \<le> x \<and> x \<le> y" for x y :: real
    using that
    by (auto simp: double_range_def inf_of_def fle_def flt_def feq_def abs_if split: if_splits)
  show ?thesis
    unfolding monotone_rounding_def using big small idem mono
    by (auto simp: double_range_def flt_def)
qed

subsection \<open>The edges of the builder\<close>

lemma adjacent_in_grows:
  assumes "info_grows g g'" and "adjacent_in g n u v"
  shows "adjacent_in g' n u v"
proof -
  from assms(2) obtain info1 info2 s p where
    h: "node_info_of g u = Inr info1" "node_info_of g v = Inr info2" "s < n"
      "(s, p) \<in> set info1" "(s, Suc p) \<in> set info2"
    unfolding adjacent_in_def by blast
  from assms(1) h(1) obtain o1 where o1: "node_info_of g' u = Inr o1" "set info1 \<subseteq> set o1"
    unfolding info_grows_def by blast
  from assms(1) h(2) obtain o2 where o2: "node_info_of g' v = Inr o2" "set info2 \<subseteq> set o2"
    unfolding info_grows_def by blast
  from o1 o2 h(3-5) show ?thesis unfolding adjacent_in_def by blast
qed

lemma edges_adjacent_grows:
  assumes "info_grows g g'" and "edges_adjacent g n"
  shows "edges_adjacent g' n"
  unfolding edges_adjacent_def
proof
  fix e assume "e \<in> set (g_edges g')"
  with assms(1) have "e \<in> set (g_edges g)" by (simp add: info_grows_def)
  with assms(2) have "adjacent_in g n (fst (fst e)) (snd (fst e))"
    unfolding edges_adjacent_def by blast
  with assms(1) show "adjacent_in g' n (fst (fst e)) (snd (fst e))" by (rule adjacent_in_grows)
qed

lemma pass_step_same: "pass_step i j st st"
  by (simp add: pass_step_def)

lemma pass_step_new:
  "\<not> has_node (graph self) n \<Longrightarrow>
   pass_step i j (self, mapping) (new_node self n i j t, mapping[j := Some n])"
  unfolding pass_step_def by (intro disjI2 disjI1 exI [of _ n] exI [of _ t]) simp

lemma pass_step_attach:
  "attach self n i j = Inr self' \<Longrightarrow>
   pass_step i j (self, mapping) (self', mapping[j := Some n])"
  unfolding pass_step_def by (intro disjI2 exI [of _ n] exI [of _ self']) simp

lemma mapping_ok_grows:
  assumes "info_grows g g'" and "mapping_ok g i m"
  shows "mapping_ok g' i m"
  unfolding mapping_ok_def
proof (intro allI impI)
  fix j n assume "j < length m" "m ! j = Some n"
  with assms(2) obtain occs where "node_info_of g n = Inr occs" "(i, j) \<in> set occs"
    unfolding mapping_ok_def by blast
  with assms(1) show "\<exists>occs. node_info_of g' n = Inr occs \<and> (i, j) \<in> set occs"
    unfolding info_grows_def by blast
qed

lemma mapping_ok_update:
  assumes "mapping_ok g i m" and "node_info_of g n = Inr occs" and "(i, j) \<in> set occs"
  shows "mapping_ok g i (m[j := Some n])"
  unfolding mapping_ok_def
proof (intro allI impI)
  fix j' n' assume h: "j' < length (m[j := Some n])" "m[j := Some n] ! j' = Some n'"
  show "\<exists>occs. node_info_of g n' = Inr occs \<and> (i, j') \<in> set occs"
  proof (cases "j' = j")
    case True
    with h have "n' = n" by simp
    with assms(2,3) True show ?thesis by blast
  next
    case False
    with h have "j' < length m" "m ! j' = Some n'" by simp_all
    with assms(1) show ?thesis unfolding mapping_ok_def by blast
  qed
qed

lemma new_node_grows:
  assumes "\<not> has_node (graph self) n"
  shows "info_grows (graph self) (graph (new_node self n i j t))"
proof -
  have "node_info_of (graph (new_node self n i j t)) m = node_info_of (graph self) m"
    if "node_info_of (graph self) m = Inr occs" for m occs
  proof -
    from that assms have "m \<noteq> n"
      by (auto simp: node_info_of_def has_node_def split: option.splits)
    then show ?thesis
      by (simp add: node_info_of_def new_node_def add_node_def update_conv')
  qed
  then show ?thesis
    unfolding info_grows_def by (auto simp: new_node_def add_node_def)
qed

lemma attach_grows:
  assumes "attach self n i j = Inr self'"
  shows "info_grows (graph self) (graph self') \<and> sentence self' = sentence self \<and>
    (\<exists>occs. node_info_of (graph self') n = Inr occs \<and> (i, j) \<in> set occs)"
proof -
  from assms obtain a where a: "map_of (g_nodes (graph self)) n = Some a"
    and g: "self' = self\<lparr>graph := (graph self)\<lparr>g_nodes :=
        AList.update n (a\<lparr>info := info a @ [(i, j)]\<rparr>) (g_nodes (graph self))\<rparr>\<rparr>"
    by (auto simp: attach_def append_info_def bindE_Inr_iff split: option.splits)
  have own: "node_info_of (graph self') n = Inr (info a @ [(i, j)])"
    by (simp add: g node_info_of_def update_conv')
  have "\<exists>occs'. node_info_of (graph self') m = Inr occs' \<and> set occs \<subseteq> set occs'"
    if "node_info_of (graph self) m = Inr occs" for m occs
  proof (cases "m = n")
    case True
    with that a have "occs = info a" by (simp add: node_info_of_def)
    with own True show ?thesis by auto
  next
    case False
    then have "node_info_of (graph self') m = node_info_of (graph self) m"
      by (simp add: g node_info_of_def update_conv')
    with that show ?thesis by auto
  qed
  then have "info_grows (graph self) (graph self')"
    unfolding info_grows_def by (simp add: g)
  with own show ?thesis by (simp add: g)
qed

lemma pass_step_inv:
  assumes "pass_step i j st st'" and "pass_inv ss i len st"
  shows "pass_inv ss i len st'"
proof -
  from assms(2) have s: "sentence (fst st) = ss" and l: "length (snd st) = len"
    and e: "edges_adjacent (graph (fst st)) (length ss)"
    and m: "mapping_ok (graph (fst st)) i (snd st)"
    unfolding pass_inv_def by blast+
  from assms(1) consider (same) "st' = st"
    | (new) n t where "\<not> has_node (graph (fst st)) n"
        "st' = (new_node (fst st) n i j t, (snd st)[j := Some n])"
    | (att) n self' where "attach (fst st) n i j = Inr self'"
        "st' = (self', (snd st)[j := Some n])"
    unfolding pass_step_def by blast
  then show ?thesis
  proof cases
    case same
    with assms(2) show ?thesis by simp
  next
    case new
    let ?g = "graph (new_node (fst st) n i j t)"
    from new(1) have gr: "info_grows (graph (fst st)) ?g" by (rule new_node_grows)
    have ni: "node_info_of ?g n = Inr [(i, j)]"
      by (simp add: node_info_of_def new_node_def add_node_def update_conv')
    have "mapping_ok ?g i ((snd st)[j := Some n])"
      by (rule mapping_ok_update [OF mapping_ok_grows [OF gr m] ni]) simp
    moreover have "edges_adjacent ?g (length ss)" using gr e by (rule edges_adjacent_grows)
    moreover have "sentence (new_node (fst st) n i j t) = ss" using s by (simp add: new_node_def)
    ultimately show ?thesis using l new(2) by (simp add: pass_inv_def)
  next
    case att
    from attach_grows [OF att(1)] obtain occs where
      gr: "info_grows (graph (fst st)) (graph self')" and se: "sentence self' = sentence (fst st)"
      and oc: "node_info_of (graph self') n = Inr occs" "(i, j) \<in> set occs"
      by blast
    have "mapping_ok (graph self') i ((snd st)[j := Some n])"
      using mapping_ok_grows [OF gr m] oc by (rule mapping_ok_update)
    moreover have "edges_adjacent (graph self') (length ss)" using gr e by (rule edges_adjacent_grows)
    ultimately show ?thesis using l s se att(2) by (simp add: pass_inv_def)
  qed
qed

lemma ambiguous_from_free: "\<not> has_node g (node, ambiguous_from g node k)"
proof (induction g node k rule: ambiguous_from.induct)
  case (1 g node k)
  show ?case
  proof (cases "has_node g (node, k)")
    case True
    with "1.IH" show ?thesis by (subst ambiguous_from.simps) simp
  next
    case False
    then show ?thesis by (subst ambiguous_from.simps) simp
  qed
qed

lemma ambiguous_nodes_free: "\<not> has_node (graph self) (node, ambiguous_nodes self node)"
  unfolding ambiguous_nodes_def by (rule ambiguous_from_free)

lemma attach_or_create_pass_step:
  assumes "attach_or_create self mapping i j token node found selected k = Inr st'"
    and "k = ambiguous_nodes self node"
  shows "pass_step i j (self, mapping) st'"
proof (cases found)
  case False
  with assms(1) have "st' = (new_node self (node, k) i j token, mapping[j := Some (node, k)])"
    by (simp add: attach_or_create_def)
  moreover have "\<not> has_node (graph self) (node, k)"
    unfolding assms(2) by (rule ambiguous_nodes_free)
  ultimately show ?thesis by (simp add: pass_step_new)
next
  case True
  with assms(1) obtain self' where "attach self (node, selected) i j = Inr self'"
    and "st' = (self', mapping[j := Some (node, selected)])"
    by (auto simp: attach_or_create_def bindE_Inr_iff)
  then show ?thesis by (simp add: pass_step_attach)
qed

lemma pass1_step_pass_step:
  assumes "pass1_step i j st = Inr st'"
  shows "pass_step i j st st'"
proof -
  obtain self mapping where st: "st = (self, mapping)" by (cases st)
  obtain token pos weight where t: "sentence self ! i ! j = (token, pos, weight)"
    by (cases "sentence self ! i ! j")
  let ?node = "lower token @ sep @ pos"
  define k where "k = ambiguous_nodes self ?node"
  have free: "\<not> has_node (graph self) (?node, k)"
    unfolding k_def by (rule ambiguous_nodes_free)
  consider (skip) "token \<in> stopwords self \<or> is_punct token"
    | (zero) "\<not> (token \<in> stopwords self \<or> is_punct token)" "k = 0"
    | (one) "\<not> (token \<in> stopwords self \<or> is_punct token)" "k = 1"
    | (many) "\<not> (token \<in> stopwords self \<or> is_punct token)" "k \<noteq> 0" "k \<noteq> 1"
    by blast
  then show ?thesis
  proof cases
    case skip
    with assms have "st' = (self, mapping)"
      by (simp add: pass1_step_def st t)
    then show ?thesis by (simp add: pass_step_same st)
  next
    case zero
    with assms have "st' = (new_node self (?node, 0) i j token, mapping[j := Some (?node, 0)])"
      by (simp add: pass1_step_def st t Let_def k_def [symmetric])
    with free zero(2) show ?thesis by (simp add: st pass_step_new)
  next
    case one
    with assms obtain occs where occs: "node_info_of (graph self) (?node, 0) = Inr occs"
      and r: "(if i \<notin> set (map fst occs)
               then bindE (attach self (?node, 0) i j) (\<lambda>self'. Inr (self', mapping[j := Some (?node, 0)]))
               else Inr (new_node self (?node, 1) i j token, mapping[j := Some (?node, 1)])) = Inr st'"
      by (simp add: pass1_step_def st t Let_def k_def [symmetric] bindE_Inr_iff) blast
    show ?thesis
    proof (cases "i \<in> set (map fst occs)")
      case True
      with r have "st' = (new_node self (?node, 1) i j token, mapping[j := Some (?node, 1)])"
        by simp
      with free one(2) show ?thesis by (simp add: st pass_step_new)
    next
      case False
      with r obtain self' where "attach self (?node, 0) i j = Inr self'"
        and "st' = (self', mapping[j := Some (?node, 0)])"
        by (auto simp: bindE_Inr_iff)
      then show ?thesis by (simp add: st pass_step_attach)
    qed
  next
    case many
    with assms have "st' = (self, mapping)"
      by (simp add: pass1_step_def st t Let_def k_def [symmetric])
    then show ?thesis by (simp add: pass_step_same st)
  qed
qed

lemma pass2_step_pass_step:
  assumes "pass2_step i j st = Inr st'"
  shows "pass_step i j st st'"
proof -
  obtain self mapping where st: "st = (self, mapping)" by (cases st)
  obtain token pos weight where t: "sentence self ! i ! j = (token, pos, weight)"
    by (cases "sentence self ! i ! j")
  let ?node = "lower token @ sep @ pos"
  show ?thesis
  proof (cases "\<not> (token \<in> stopwords self \<or> is_punct token) \<and> mapping ! j = None")
    case False
    with assms have "st' = (self, mapping)"
      unfolding pass2_step_def st by (auto simp: t split: if_splits)
    then show ?thesis by (simp add: pass_step_same st)
  next
    case True
    with assms have "bindE (pass2_select self i j ?node) (\<lambda>r.
        attach_or_create self mapping i j token ?node (fst r) (snd r)
          (ambiguous_nodes self ?node)) = Inr st'"
      unfolding pass2_step_def st by (simp add: t Let_def)
    then obtain r where
      a: "attach_or_create self mapping i j token ?node (fst r) (snd r)
          (ambiguous_nodes self ?node) = Inr st'"
      unfolding bindE_Inr_iff by blast
    then show ?thesis unfolding st by (rule attach_or_create_pass_step) simp
  qed
qed

lemma reuse_or_create_pass_step:
  assumes "reuse_or_create non_pos threshold i j t st = Inr st'"
  shows "pass_step i j st st'"
proof -
  obtain self mapping where st: "st = (self, mapping)" by (cases st)
  obtain token pos weight where t: "t = (token, pos, weight)" by (cases t)
  let ?node = "lower token @ sep @ pos"
  let ?k = "ambiguous_nodes self ?node"
  show ?thesis
  proof (cases "?k = 0")
    case True
    with assms have "st' = (new_node self (?node, 0) i j token, mapping[j := Some (?node, 0)])"
      unfolding reuse_or_create_def st t by (simp add: Let_def)
    moreover have "\<not> has_node (graph self) (?node, 0)"
      using ambiguous_nodes_free [of self ?node] True by simp
    ultimately show ?thesis by (simp add: st pass_step_new)
  next
    case False
    with assms have "bindE (best_overlap self non_pos i j ?node ?k) (\<lambda>best.
              bindE (node_info_of (graph self) (?node, fst best)) (\<lambda>occs.
                attach_or_create self mapping i j token ?node
                  (i \<notin> set (map fst occs) \<and> snd best > threshold) (fst best) ?k)) = Inr st'"
      unfolding reuse_or_create_def st t by (simp add: Let_def)
    then obtain best occs where
      oc: "node_info_of (graph self) (?node, fst best) = Inr occs"
      and a: "attach_or_create self mapping i j token ?node
                  (i \<notin> set (map fst occs) \<and> snd best > threshold) (fst best) ?k = Inr st'"
      unfolding bindE_Inr_iff by blast
    from a show ?thesis unfolding st by (rule attach_or_create_pass_step) simp
  qed
qed

lemma pass3_step_pass_step: "pass3_step i j st = Inr st' \<Longrightarrow> pass_step i j st st'"
  by (auto simp: pass3_step_def pass_step_same split: prod.splits if_splits
      intro: reuse_or_create_pass_step)

lemma pass4_step_pass_step: "pass4_step i j st = Inr st' \<Longrightarrow> pass_step i j st st'"
  by (auto simp: pass4_step_def pass_step_same split: prod.splits if_splits
      intro: reuse_or_create_pass_step)

lemma add_edges_step_inv:
  assumes "add_edges_step j st = Inr st'" and "pass_inv ss i len st"
    and "0 < j" and "j < len" and "i < length ss"
  shows "pass_inv ss i len st'"
proof -
  obtain self mapping where st: "st = (self, mapping)" by (cases st)
  from assms(2) have s: "sentence self = ss" and l: "length mapping = len"
    and e: "edges_adjacent (graph self) (length ss)"
    and m: "mapping_ok (graph self) i mapping"
    unfolding pass_inv_def st by simp_all
  from assms(1) obtain u v where u: "mapping ! (j - 1) = Some u" and v: "mapping ! j = Some v"
    and r: "st' = (self\<lparr>graph := add_edge (graph self) u v\<rparr>, mapping)"
    by (auto simp: add_edges_step_def st split: option.splits)
  from m u assms(3,4) l obtain o1 where o1: "node_info_of (graph self) u = Inr o1" "(i, j - 1) \<in> set o1"
    unfolding mapping_ok_def by (metis less_imp_diff_less)
  from m v assms(4) l obtain o2 where o2: "node_info_of (graph self) v = Inr o2" "(i, j) \<in> set o2"
    unfolding mapping_ok_def by blast
  have adj: "adjacent_in (graph self) (length ss) u v"
    unfolding adjacent_in_def using o1 o2 assms(3,5)
    by (intro exI [of _ o1] exI [of _ o2] exI [of _ i] exI [of _ "j - 1"]) simp
  have ni: "node_info_of (add_edge (graph self) u v) = node_info_of (graph self)"
    by (rule ext) (simp add: node_info_of_def add_edge_def)
  have ad: "adjacent_in (add_edge (graph self) u v) n a b = adjacent_in (graph self) n a b" for n a b
    by (simp add: adjacent_in_def ni)
  have "edges_adjacent (add_edge (graph self) u v) (length ss)"
    using e adj unfolding edges_adjacent_def ad by (auto simp: add_edge_def)
  moreover have "mapping_ok (add_edge (graph self) u v) i mapping"
    using m by (simp add: mapping_ok_def ni)
  ultimately show ?thesis using s l r by (simp add: pass_inv_def)
qed

lemma process_sentence_edges_adjacent:
  assumes "process_sentence i self = Inr self'" and "i < length (sentence self)"
    and "edges_adjacent (graph self) (length (sentence self))"
  shows "sentence self' = sentence self \<and> edges_adjacent (graph self') (length (sentence self))"
proof -
  let ?n = "length (sentence self ! i)"
  let ?P = "pass_inv (sentence self) i ?n"
  from assms(1) obtain st1 st2 st3 st4 st5 where
    p1: "foldE (pass1_step i) [0..<?n] (self, replicate ?n None) = Inr st1"
    and p2: "foldE (pass2_step i) [0..<?n] st1 = Inr st2"
    and p3: "foldE (pass3_step i) [0..<?n] st2 = Inr st3"
    and p4: "foldE (pass4_step i) [0..<?n] st3 = Inr st4"
    and p5: "foldE add_edges_step [1..<?n] st4 = Inr st5"
    and r: "self' = fst st5"
    by (auto simp: process_sentence_def Let_def bindE_Inr_iff)
  have "?P (self, replicate ?n None)"
    using assms(3) by (simp add: pass_inv_def mapping_ok_def)
  with p1 have "?P st1"
    by (rule foldE_invariant) (blast intro: pass_step_inv pass1_step_pass_step)
  with p2 have "?P st2"
    by (rule foldE_invariant) (blast intro: pass_step_inv pass2_step_pass_step)
  with p3 have "?P st3"
    by (rule foldE_invariant) (blast intro: pass_step_inv pass3_step_pass_step)
  with p4 have "?P st4"
    by (rule foldE_invariant) (blast intro: pass_step_inv pass4_step_pass_step)
  with p5 have "?P st5"
    by (rule foldE_invariant) (rule add_edges_step_inv, assumption+, use assms(2) in simp_all)
  with r show ?thesis by (simp add: pass_inv_def)
qed

lemma passes_edges_adjacent:
  assumes "foldE process_sentence [0..<length (sentence self)] self = Inr self'"
    and "g_edges (graph self) = []"
  shows "sentence self' = sentence self \<and> edges_adjacent (graph self') (length (sentence self))"
proof -
  let ?P = "\<lambda>s. sentence s = sentence self \<and> edges_adjacent (graph s) (length (sentence self))"
  have "?P self" using assms(2) by (simp add: edges_adjacent_def)
  with assms(1) show "?P self'"
  proof (rule foldE_invariant)
    fix x t t'
    assume x: "x \<in> set [0..<length (sentence self)]" and t: "?P t"
      and p: "process_sentence x t = Inr t'"
    from process_sentence_edges_adjacent [OF p] x t show "?P t'" by simp
  qed
qed

text \<open>
  C1 (as the code has it). \<open>get_edge_weight\<close> returns 0 when one of the two word weights
  is 0. Otherwise it divides the sum of the weights by the sum \<open>diff_sum\<close> of the
  \<open>1 / distance\<close> over the sentences, and the quotient by the product of the weights,
  with no test of either divisor. For an edge that the four passes of \<open>build_graph\<close>
  have created, the two nodes hold consecutive positions of a sentence, so that
  \<open>diff_sum\<close> is positive and the first division does not fail; the call then raises
  \<open>ZeroDivisionError\<close> exactly when the product of the two weights is zero (two small
  weights whose product underflows), and returns the quotient otherwise.
\<close>

theorem get_edge_weight_value:
  assumes "monotone_rounding fl"
    and "foldE process_sentence [0..<length (sentence self)] self = Inr self'"
    and "g_edges (graph self) = []"
    and "((node1, node2), w) \<in> set (g_edges (graph self'))"
    and "weight1 = term_weight_of (term_weight self') (fst node1)"
    and "weight2 = term_weight_of (term_weight self') (fst node2)"
  shows "\<exists>info1 info2 diff.
      node_info_of (graph self') node1 = Inr info1 \<and>
      node_info_of (graph self') node2 = Inr info2 \<and>
      diff_list fl info1 info2 (length (sentence self')) = Inr diff \<and>
      flt (Fin 0) (fsum fl diff) \<and>
      get_edge_weight fl (graph self') (term_weight self') (length (sentence self')) node1 node2 =
        (if feq weight1 (Fin 0) \<or> feq weight2 (Fin 0) then Inr (Fin 0)
         else if fmul fl weight1 weight2 = Fin 0 then Inl ZeroDivisionError
         else Inr (fquot fl (fquot fl (fadd fl weight1 weight2) (fsum fl diff))
                     (fmul fl weight1 weight2)))"
proof -
  from passes_edges_adjacent [OF assms(2,3)]
  have se: "sentence self' = sentence self"
    and ea: "edges_adjacent (graph self') (length (sentence self))" by blast+
  from ea assms(4) have "adjacent_in (graph self') (length (sentence self)) node1 node2"
    unfolding edges_adjacent_def by force
  then obtain info1 info2 s p where
    i1: "node_info_of (graph self') node1 = Inr info1"
    and i2: "node_info_of (graph self') node2 = Inr info2"
    and s: "s < length (sentence self)" and p: "(s, p) \<in> set info1" "(s, Suc p) \<in> set info2"
    unfolding adjacent_in_def by blast
  from diff_list_adjacent [OF assms(1) p s] obtain diff where
    d: "diff_list fl info1 info2 (length (sentence self)) = Inr diff"
    and pos: "flt (Fin 0) (fsum fl diff)"
    by blast
  from pos have nz: "fsum fl diff \<noteq> Fin 0" by (auto simp: flt_def)
  have "get_edge_weight fl (graph self') (term_weight self') (length (sentence self')) node1 node2 =
        (if feq weight1 (Fin 0) \<or> feq weight2 (Fin 0) then Inr (Fin 0)
         else if fmul fl weight1 weight2 = Fin 0 then Inl ZeroDivisionError
         else Inr (fquot fl (fquot fl (fadd fl weight1 weight2) (fsum fl diff))
                     (fmul fl weight1 weight2)))"
    unfolding get_edge_weight_def assms(5,6) se
    by (simp add: i1 i2 d nz Let_def fdiv_def)
  with i1 i2 d pos show ?thesis unfolding se by blast
qed

theorem get_edge_weight_value_witness:
  "\<not> isl (foldE process_sentence [0..<1] aa_graph) \<and>
   (\<exists>diff. flt (Fin 0) (fsum double_range diff) \<and>
      get_edge_weight double_range (graph (projr (foldE process_sentence [0..<1] aa_graph)))
        (term_weight (projr (foldE process_sentence [0..<1] aa_graph))) 1
        (''a/-/NN'', 0) (''a/-/NN'', 1) = Inr (Fin 1))"
proof -
  let ?r = "foldE process_sentence [0..<1] aa_graph"
  have ok: "\<not> isl ?r" by code_simp
  then have r: "foldE process_sentence [0..<length (sentence aa_graph)] aa_graph = Inr (projr ?r)"
    by (simp add: aa_graph_def)
  have e: "g_edges (graph aa_graph) = []" by (simp add: aa_graph_def empty_graph_def)
  have m: "(((''a/-/NN'', 0), (''a/-/NN'', 1)), None) \<in> set (g_edges (graph (projr ?r)))"
    by code_simp
  have v: "get_edge_weight double_range (graph (projr ?r)) (term_weight (projr ?r)) 1
        (''a/-/NN'', 0) (''a/-/NN'', 1) = Inr (Fin 1)"
    by code_simp
  from get_edge_weight_value [OF monotone_double_range r e m refl refl] obtain diff where
    "flt (Fin 0) (fsum double_range diff)" by blast
  with ok v show ?thesis by blast
qed

end
